theory Spec2Isabelle
  imports Main "HOL-Library.Word" "HOL-Library.Sublist" "HOL-Library.AList"
begin

section \<open>JavaScript values\<close>

text \<open>
  A JavaScript string is a sequence of UTF-16 code units. The renderer's alert helpers
  test and delete single code units (\<^verbatim>\<open>startsWith\<close>, a character class of a regular
  expression), so strings are lists of 16-bit words here and not lists of bytes.
  \<open>ustr\<close> embeds an ASCII literal.
\<close>

type_synonym code_unit = "16 word"
type_synonym js_string = "code_unit list"

definition ustr :: "string \<Rightarrow> js_string" where
  "ustr s = map of_char s"

text \<open>
  The values that \<^verbatim>\<open>response.json()\<close> and \<^verbatim>\<open>JSON.parse\<close> produce. An object is the
  list of its own properties in enumeration order; \<open>wf_json\<close> says that no property
  name occurs twice. Numbers are the integers, printed in decimal as JavaScript prints
  them below 10^21: a number with a fraction is a floating-point value and has no
  counterpart in this development. \<^verbatim>\<open>undefined\<close> is not a JSON value;
  an expression that may be \<^verbatim>\<open>undefined\<close> has type \<open>json option\<close>, with \<open>None\<close> for it.
\<close>

datatype json =
    JNull
  | JBool bool
  | JNum int
  | JStr js_string
  | JArr "json list"
  | JObj "(js_string \<times> json) list"

fun wf_json :: "json \<Rightarrow> bool" where
  "wf_json (JArr vs) = list_all wf_json vs"
| "wf_json (JObj kvs) = (distinct (map fst kvs) \<and> list_all (\<lambda>kv. wf_json (snd kv)) kvs)"
| "wf_json _ = True"

text \<open>What a \<^verbatim>\<open>throw\<close> or a rejected promise carries.\<close>

datatype js_error =
    TypeError
  | SyntaxError
  | Error js_string
  | HttpError nat
  | Rejected js_string

text \<open>\<^verbatim>\<open>ToBoolean\<close>: what \<^verbatim>\<open>if (x)\<close>, \<^verbatim>\<open>!x\<close>, \<^verbatim>\<open>x || y\<close> and \<^verbatim>\<open>x ? a : b\<close> test.\<close>

fun truthy :: "json option \<Rightarrow> bool" where
  "truthy None = False"
| "truthy (Some JNull) = False"
| "truthy (Some (JBool b)) = b"
| "truthy (Some (JNum n)) = (n \<noteq> 0)"
| "truthy (Some (JStr s)) = (s \<noteq> [])"
| "truthy (Some (JArr vs)) = True"
| "truthy (Some (JObj kvs)) = True"

text \<open>
  Property access \<^verbatim>\<open>v.k\<close> for the names this program reads (\<^verbatim>\<open>response\<close>, \<^verbatim>\<open>textView\<close>,
  \<^verbatim>\<open>dashboardView\<close>, \<^verbatim>\<open>module_outputs\<close>, \<^verbatim>\<open>data\<close>, \<^verbatim>\<open>labels\<close>, \<^verbatim>\<open>title\<close>, \<^verbatim>\<open>type\<close>,
  \<^verbatim>\<open>message\<close>), none of which is inherited from a prototype: an object yields its own
  property, every other value but \<^verbatim>\<open>null\<close> yields \<^verbatim>\<open>undefined\<close>. The one inherited name
  that the program reads is \<^verbatim>\<open>values\<close> of an array, a function; it is read only under
  \<^verbatim>\<open>Array.isArray\<close>, which is false for it as for \<^verbatim>\<open>undefined\<close>.
  \<open>get\<close> adds the \<^verbatim>\<open>TypeError\<close> of reading a property of \<^verbatim>\<open>null\<close>.
\<close>

fun js_member :: "json \<Rightarrow> js_string \<Rightarrow> json option" where
  "js_member (JObj kvs) k = map_of kvs k"
| "js_member _ k = None"

definition get :: "json \<Rightarrow> js_string \<Rightarrow> js_error + json option" where
  "get v k = (if v = JNull then Inl TypeError else Inr (js_member v k))"

text \<open>\<^verbatim>\<open>Array.isArray(x)\<close>, \<^verbatim>\<open>xs[i]\<close> (\<^verbatim>\<open>undefined\<close> out of range) and \<^verbatim>\<open>x ?? y\<close>.\<close>

fun isArray :: "json option \<Rightarrow> bool" where
  "isArray (Some (JArr vs)) = True"
| "isArray _ = False"

fun elements :: "json option \<Rightarrow> json list" where
  "elements (Some (JArr vs)) = vs"
| "elements _ = []"

definition at_index :: "json list \<Rightarrow> nat \<Rightarrow> json option" where
  "at_index xs i = (if i < length xs then Some (xs ! i) else None)"

fun nullish_or :: "json option \<Rightarrow> json \<Rightarrow> json" where
  "nullish_or None d = d"
| "nullish_or (Some JNull) d = d"
| "nullish_or (Some v) d = v"

text \<open>\<^verbatim>\<open>x || y\<close> with \<open>y\<close> defined.\<close>

fun logical_or :: "json option \<Rightarrow> json \<Rightarrow> json" where
  "logical_or None d = d"
| "logical_or (Some v) d = (if truthy (Some v) then v else d)"

text \<open>
  \<^verbatim>\<open>String.prototype.trim\<close> removes the white space and line terminators of ECMAScript
  from both ends.
\<close>

definition js_whitespace :: "code_unit \<Rightarrow> bool" where
  "js_whitespace c \<longleftrightarrow>
     c \<in> {0x09, 0x0A, 0x0B, 0x0C, 0x0D, 0x20, 0xA0, 0x1680, 0x2028, 0x2029,
          0x202F, 0x205F, 0x3000, 0xFEFF} \<or> (0x2000 \<le> c \<and> c \<le> 0x200A)"

definition trim :: "js_string \<Rightarrow> js_string" where
  "trim s = rev (dropWhile js_whitespace (rev (dropWhile js_whitespace s)))"

section \<open>The built-ins JSON.stringify, JSON.parse and ToString\<close>

text \<open>
  The program calls \<^verbatim>\<open>JSON.stringify\<close> where it persists a reply and \<^verbatim>\<open>JSON.parse\<close> where
  it normalises and where it renders. Both are functions of ECMAScript, modelled here on
  code units and on the values of type \<open>json\<close>.
\<close>

abbreviation dquote :: code_unit where "dquote \<equiv> 0x22"
abbreviation backslash :: code_unit where "backslash \<equiv> 0x5C"
abbreviation comma :: code_unit where "comma \<equiv> 0x2C"
abbreviation colon :: code_unit where "colon \<equiv> 0x3A"
abbreviation minus_sign :: code_unit where "minus_sign \<equiv> 0x2D"
abbreviation lbracket :: code_unit where "lbracket \<equiv> 0x5B"
abbreviation rbracket :: code_unit where "rbracket \<equiv> 0x5D"
abbreviation lbrace :: code_unit where "lbrace \<equiv> 0x7B"
abbreviation rbrace :: code_unit where "rbrace \<equiv> 0x7D"

subsection \<open>Numbers\<close>

text \<open>\<^verbatim>\<open>Number::toString\<close> on an integer: its decimal digits, with a sign when negative.\<close>

fun digits :: "nat \<Rightarrow> js_string" where
  "digits n = (if n < 10 then [0x30 + of_nat n] else digits (n div 10) @ [0x30 + of_nat (n mod 10)])"

declare digits.simps [simp del]

definition show_int :: "int \<Rightarrow> js_string" where
  "show_int i = (if i < 0 then minus_sign # digits (nat (- i)) else digits (nat i))"

definition is_digit :: "code_unit \<Rightarrow> bool" where
  "is_digit c \<longleftrightarrow> 0x30 \<le> c \<and> c \<le> 0x39"

definition digits_value :: "js_string \<Rightarrow> nat" where
  "digits_value ds = foldl (\<lambda>n c. 10 * n + (unat c - 48)) 0 ds"

text \<open>
  A JSON number is \<^verbatim>\<open>-?(0|[1-9][0-9]*)\<close> with an optional fraction and exponent. Only
  the integer literals have a value of type \<open>json\<close>: on a fraction or an exponent the
  parser has no result.
\<close>

definition parse_number :: "js_string \<Rightarrow> (json \<times> js_string) option" where
  "parse_number cs =
    (let neg = (cs \<noteq> [] \<and> hd cs = minus_sign);
         cs1 = (if neg then tl cs else cs);
         ds = takeWhile is_digit cs1;
         rest = dropWhile is_digit cs1
     in if ds = [] then None
        else if hd ds = 0x30 \<and> length ds > 1 then None
        else if rest \<noteq> [] \<and> hd rest \<in> {0x2E, 0x45, 0x65} then None
        else Some (JNum (if neg then - int (digits_value ds) else int (digits_value ds)), rest))"

subsection \<open>Strings\<close>

text \<open>
  \<^verbatim>\<open>QuoteJSONString\<close>: the two-character escapes, \<^verbatim>\<open>\uXXXX\<close> in lower-case hexadecimal
  for the other control characters and for a surrogate that is not part of a pair, and
  every other code unit as it is.
\<close>

definition hex_digit :: "nat \<Rightarrow> code_unit" where
  "hex_digit d = (if d < 10 then 0x30 + of_nat d else 0x61 + of_nat (d - 10))"

definition unicode_escape :: "code_unit \<Rightarrow> js_string" where
  "unicode_escape c =
    [backslash, 0x75, hex_digit (unat c div 4096), hex_digit (unat c div 256 mod 16),
     hex_digit (unat c div 16 mod 16), hex_digit (unat c mod 16)]"

definition is_lead_surrogate :: "code_unit \<Rightarrow> bool" where
  "is_lead_surrogate c \<longleftrightarrow> 0xD800 \<le> c \<and> c \<le> 0xDBFF"

definition is_trail_surrogate :: "code_unit \<Rightarrow> bool" where
  "is_trail_surrogate c \<longleftrightarrow> 0xDC00 \<le> c \<and> c \<le> 0xDFFF"

fun quote_units :: "js_string \<Rightarrow> js_string" where
  "quote_units [] = []"
| "quote_units (c # cs) =
    (if c = 0x08 then [backslash, 0x62] @ quote_units cs
     else if c = 0x09 then [backslash, 0x74] @ quote_units cs
     else if c = 0x0A then [backslash, 0x6E] @ quote_units cs
     else if c = 0x0C then [backslash, 0x66] @ quote_units cs
     else if c = 0x0D then [backslash, 0x72] @ quote_units cs
     else if c = dquote then [backslash, dquote] @ quote_units cs
     else if c = backslash then [backslash, backslash] @ quote_units cs
     else if c < 0x20 then unicode_escape c @ quote_units cs
     else if is_lead_surrogate c then
       (case cs of
          [] \<Rightarrow> unicode_escape c
        | d # ds \<Rightarrow> if is_trail_surrogate d then c # d # quote_units ds
                    else unicode_escape c @ quote_units cs)
     else if is_trail_surrogate c then unicode_escape c @ quote_units cs
     else c # quote_units cs)"

definition quote_string :: "js_string \<Rightarrow> js_string" where
  "quote_string s = dquote # quote_units s @ [dquote]"

definition hex_value :: "code_unit \<Rightarrow> nat option" where
  "hex_value c =
    (if 0x30 \<le> c \<and> c \<le> 0x39 then Some (unat c - 48)
     else if 0x61 \<le> c \<and> c \<le> 0x66 then Some (unat c - 87)
     else if 0x41 \<le> c \<and> c \<le> 0x46 then Some (unat c - 55)
     else None)"

definition simple_escape :: "code_unit \<Rightarrow> code_unit option" where
  "simple_escape e =
    (if e = dquote then Some dquote
     else if e = backslash then Some backslash
     else if e = 0x2F then Some 0x2F
     else if e = 0x62 then Some 0x08
     else if e = 0x66 then Some 0x0C
     else if e = 0x6E then Some 0x0A
     else if e = 0x72 then Some 0x0D
     else if e = 0x74 then Some 0x09
     else None)"

definition cons_unit ::
  "code_unit \<Rightarrow> (js_string \<times> js_string) option \<Rightarrow> (js_string \<times> js_string) option" where
  "cons_unit u r = map_option (\<lambda>(s, rest). (u # s, rest)) r"

text \<open>
  The characters of a string token after its opening quote: the decoded string and the
  input after the closing quote. A control character below U+0020 may not stand
  unescaped in a JSON string.
\<close>

fun parse_string_units :: "js_string \<Rightarrow> (js_string \<times> js_string) option" where
  "parse_string_units [] = None"
| "parse_string_units (c # cs) =
    (if c = dquote then Some ([], cs)
     else if c = backslash then
       (case cs of
          [] \<Rightarrow> None
        | e # r \<Rightarrow>
           if e = 0x75 then
             (case r of
                h1 # h2 # h3 # h4 # r' \<Rightarrow>
                  (case (hex_value h1, hex_value h2, hex_value h3, hex_value h4) of
                     (Some a, Some b, Some c', Some d) \<Rightarrow>
                       cons_unit (of_nat (a * 4096 + b * 256 + c' * 16 + d)) (parse_string_units r')
                   | _ \<Rightarrow> None)
              | _ \<Rightarrow> None)
           else (case simple_escape e of
                   None \<Rightarrow> None
                 | Some u \<Rightarrow> cons_unit u (parse_string_units r)))
     else if c < 0x20 then None
     else cons_unit c (parse_string_units cs))"

subsection \<open>JSON.stringify\<close>

fun join_comma :: "js_string list \<Rightarrow> js_string" where
  "join_comma [] = []"
| "join_comma [x] = x"
| "join_comma (x # y # ys) = x @ comma # join_comma (y # ys)"

fun JSON_stringify :: "json \<Rightarrow> js_string" where
  "JSON_stringify JNull = ustr ''null''"
| "JSON_stringify (JBool b) = (if b then ustr ''true'' else ustr ''false'')"
| "JSON_stringify (JNum i) = show_int i"
| "JSON_stringify (JStr s) = quote_string s"
| "JSON_stringify (JArr vs) = lbracket # join_comma (map JSON_stringify vs) @ [rbracket]"
| "JSON_stringify (JObj kvs) =
     lbrace # join_comma (map (\<lambda>kv. quote_string (fst kv) @ colon # JSON_stringify (snd kv)) kvs)
       @ [rbrace]"

subsection \<open>JSON.parse\<close>

definition json_ws :: "code_unit \<Rightarrow> bool" where
  "json_ws c \<longleftrightarrow> c \<in> {0x09, 0x0A, 0x0D, 0x20}"

definition skip_ws :: "js_string \<Rightarrow> js_string" where
  "skip_ws cs = dropWhile json_ws cs"

text \<open>
  An object literal that repeats a name keeps the place of the first occurrence and the
  value of the last, as the property assignments of \<^verbatim>\<open>JSON.parse\<close> do.
\<close>

definition object_of_members :: "(js_string \<times> json) list \<Rightarrow> (js_string \<times> json) list" where
  "object_of_members ms = foldl (\<lambda>al kv. AList.update (fst kv) (snd kv) al) [] ms"

text \<open>
  Recursive descent. The first argument bounds the depth of the recursion; every call
  that spends one unit of it also consumes a code unit, so the length of the text is
  enough (\<open>JSON_parse\<close> below, and the lemma \<open>parse_value_fuel\<close>).
  \<open>parse_elements\<close> reads the elements of a non-empty array up to and including the
  closing bracket, \<open>parse_members\<close> the members of a non-empty object up to and
  including the closing brace.
\<close>

fun parse_value :: "nat \<Rightarrow> js_string \<Rightarrow> (json \<times> js_string) option"
  and parse_elements :: "nat \<Rightarrow> js_string \<Rightarrow> (json list \<times> js_string) option"
  and parse_members :: "nat \<Rightarrow> js_string \<Rightarrow> ((js_string \<times> json) list \<times> js_string) option"
where
  "parse_value 0 cs = None"
| "parse_value (Suc n) cs =
    (case skip_ws cs of
       [] \<Rightarrow> None
     | c # r \<Rightarrow>
        if c = lbrace then
          (if skip_ws r \<noteq> [] \<and> hd (skip_ws r) = rbrace then Some (JObj [], tl (skip_ws r))
           else map_option (\<lambda>(ms, r'). (JObj (object_of_members ms), r')) (parse_members n r))
        else if c = lbracket then
          (if skip_ws r \<noteq> [] \<and> hd (skip_ws r) = rbracket then Some (JArr [], tl (skip_ws r))
           else map_option (\<lambda>(vs, r'). (JArr vs, r')) (parse_elements n r))
        else if c = dquote then map_option (\<lambda>(s, r'). (JStr s, r')) (parse_string_units r)
        else if prefix (ustr ''true'') (c # r) then Some (JBool True, drop 4 (c # r))
        else if prefix (ustr ''false'') (c # r) then Some (JBool False, drop 5 (c # r))
        else if prefix (ustr ''null'') (c # r) then Some (JNull, drop 4 (c # r))
        else parse_number (c # r))"
| "parse_elements 0 cs = None"
| "parse_elements (Suc n) cs =
    (case parse_value n cs of
       None \<Rightarrow> None
     | Some (v, r) \<Rightarrow>
        (case skip_ws r of
           [] \<Rightarrow> None
         | c # r' \<Rightarrow>
            if c = comma then map_option (\<lambda>(vs, r''). (v # vs, r'')) (parse_elements n r')
            else if c = rbracket then Some ([v], r')
            else None))"
| "parse_members 0 cs = None"
| "parse_members (Suc n) cs =
    (case skip_ws cs of
       [] \<Rightarrow> None
     | q # r \<Rightarrow>
        if q \<noteq> dquote then None
        else (case parse_string_units r of
           None \<Rightarrow> None
         | Some (k, r1) \<Rightarrow>
            (case skip_ws r1 of
               [] \<Rightarrow> None
             | c # r2 \<Rightarrow>
                if c \<noteq> colon then None
                else (case parse_value n r2 of
                   None \<Rightarrow> None
                 | Some (v, r3) \<Rightarrow>
                    (case skip_ws r3 of
                       [] \<Rightarrow> None
                     | d # r4 \<Rightarrow>
                        if d = comma
                        then map_option (\<lambda>(ms, r5). ((k, v) # ms, r5)) (parse_members n r4)
                        else if d = rbrace then Some ([(k, v)], r4)
                        else None)))))"

text \<open>
  \<^verbatim>\<open>JSON.parse(text)\<close>: one value, white space around it and nothing else. \<open>None\<close> is the
  \<^verbatim>\<open>SyntaxError\<close>.
\<close>

definition JSON_parse :: "js_string \<Rightarrow> json option" where
  "JSON_parse text =
    (case parse_value (length text) text of
       None \<Rightarrow> None
     | Some (v, rest) \<Rightarrow> if skip_ws rest = [] then Some v else None)"

subsection \<open>ToString\<close>

text \<open>
  \<^verbatim>\<open>JSON.parse\<close> converts its argument to a string first. A string is itself; a number
  and a boolean print; \<^verbatim>\<open>Array.prototype.toString\<close> joins the elements with commas,
  \<^verbatim>\<open>null\<close> elements as the empty string; an object is \<^verbatim>\<open>[object Object]\<close>.
\<close>

fun ToString :: "json \<Rightarrow> js_string" where
  "ToString JNull = ustr ''null''"
| "ToString (JBool b) = (if b then ustr ''true'' else ustr ''false'')"
| "ToString (JNum i) = show_int i"
| "ToString (JStr s) = s"
| "ToString (JArr vs) = join_comma (map (\<lambda>v. if v = JNull then [] else ToString v) vs)"
| "ToString (JObj kvs) = ustr ''[object Object]''"

section \<open>DashboardRenderer.tsx\<close>

subsection \<open>transformChartData and the chart cards\<close>

record point =
  point_label :: json
  point_value :: json

text \<open>
  \<^verbatim>\<open>
  const transformChartData = (data?) => {
    if (!data || !Array.isArray(data.labels) || !Array.isArray(data.values)
        || data.labels.length === 0) return [];
    return data.labels.map((label, index) =>
      ({ label, value: data.values?.[index] ?? 0 }));
  };\<close>
  \<open>data\<close> is \<^verbatim>\<open>chart.data\<close> and may be \<^verbatim>\<open>undefined\<close>. The property reads come after
  \<^verbatim>\<open>!data\<close>, so they never meet \<^verbatim>\<open>null\<close>.
\<close>

definition transformChartData :: "json option \<Rightarrow> point list" where
  "transformChartData data =
    (let labels = Option.bind data (\<lambda>d. js_member d (ustr ''labels''));
         vals = Option.bind data (\<lambda>d. js_member d (ustr ''values''))
     in if \<not> truthy data \<or> \<not> isArray labels \<or> \<not> isArray vals \<or> length (elements labels) = 0
        then []
        else map (\<lambda>(index, label).
                \<lparr>point_label = label,
                 point_value = nullish_or (at_index (elements vals) index) (JNum 0)\<rparr>)
              (enumerate 0 (elements labels)))"

text \<open>
  The callback of \<^verbatim>\<open>content.charts?.map\<close>: \<^verbatim>\<open>null\<close> (no card) when the transformed list
  is empty, else a card with the title \<^verbatim>\<open>chart.title || 'Chart'\<close>, drawn as a pie when
  \<^verbatim>\<open>chart.type === 'pie'\<close> and as bars otherwise. Reading \<^verbatim>\<open>chart.data\<close> of a \<^verbatim>\<open>null\<close>
  chart raises.
\<close>

datatype chart_kind = Pie | Bar

record chart_card =
  card_title :: json
  card_kind :: chart_kind
  card_points :: "point list"

definition renderChart :: "json \<Rightarrow> js_error + chart_card option" where
  "renderChart chart =
    (case get chart (ustr ''data'') of
       Inl e \<Rightarrow> Inl e
     | Inr data \<Rightarrow>
        (let transformedData = transformChartData data
         in if length transformedData = 0 then Inr None
            else Inr (Some
              \<lparr>card_title = logical_or (js_member chart (ustr ''title'')) (JStr (ustr ''Chart'')),
               card_kind = (if js_member chart (ustr ''type'') = Some (JStr (ustr ''pie''))
                            then Pie else Bar),
               card_points = transformedData\<rparr>)))"

subsection \<open>Alerts\<close>

text \<open>
  The source literal of \<^verbatim>\<open>startsWith\<close> is U+26A0 followed by the variation selector
  U+FE0F. The class of the regular expression in \<^verbatim>\<open>replace\<close> holds these two code
  units and U+2705 (the check mark); with the flag \<^verbatim>\<open>g\<close> every occurrence goes.
\<close>

definition warning_glyph :: js_string where
  "warning_glyph = [0x26A0, 0xFE0F]"

definition success_glyph :: js_string where
  "success_glyph = [0x2705]"

definition glyph_class :: "code_unit \<Rightarrow> bool" where
  "glyph_class c \<longleftrightarrow> c \<in> set warning_glyph \<union> set success_glyph"

datatype alert_variant = Destructive | Default

text \<open>
  \<^verbatim>\<open>
  const getAlertVariant = (alert) => {
    if (typeof alert === 'string')
      return alert.startsWith(WARNING) ? 'destructive' : 'default';
    return alert.type === 'error' || alert.type === 'warning' ? 'destructive' : 'default';
  };
  const getAlertMessage = (alert) => {
    if (typeof alert === 'string') return alert.replace(/[GLYPHS]/g, '').trim();
    return alert.message;
  };\<close>
\<close>

fun getAlertVariant :: "json \<Rightarrow> js_error + alert_variant" where
  "getAlertVariant (JStr s) = Inr (if prefix warning_glyph s then Destructive else Default)"
| "getAlertVariant alert =
    (case get alert (ustr ''type'') of
       Inl e \<Rightarrow> Inl e
     | Inr t \<Rightarrow> Inr (if t = Some (JStr (ustr ''error'')) \<or> t = Some (JStr (ustr ''warning''))
                     then Destructive else Default))"

fun getAlertMessage :: "json \<Rightarrow> js_error + json option" where
  "getAlertMessage (JStr s) = Inr (Some (JStr (trim (filter (\<lambda>c. \<not> glyph_class c) s))))"
| "getAlertMessage alert = get alert (ustr ''message'')"

section \<open>ChatInterfaceWithSidebar.tsx\<close>

subsection \<open>Normalisation of the agent's reply\<close>

text \<open>
  The object literal that the source writes twice, in the conditional and in the
  \<^verbatim>\<open>catch\<close>: \<^verbatim>\<open>{ textView: data.response, dashboardView: data.module_outputs || {} }\<close>.
\<close>

definition fallbackResponse :: "json \<Rightarrow> json \<Rightarrow> json" where
  "fallbackResponse response data =
    JObj [(ustr ''textView'', response),
          (ustr ''dashboardView'', logical_or (js_member data (ustr ''module_outputs'')) (JObj []))]"

text \<open>
  \<^verbatim>\<open>
  let assistantResponse;
  if (data.response) {
    try {
      const parsedResponse = JSON.parse(data.response);
      assistantResponse = parsedResponse.textView ? parsedResponse : { ...fallback... };
    } catch (e) {
      assistantResponse = { ...fallback... };
    }
  } else {
    assistantResponse = data;
  }\<close>
  Reading \<^verbatim>\<open>data.response\<close> of a \<^verbatim>\<open>null\<close> body raises outside the inner \<^verbatim>\<open>try\<close>; the
  \<^verbatim>\<open>SyntaxError\<close> of \<^verbatim>\<open>JSON.parse\<close> and the \<^verbatim>\<open>TypeError\<close> of \<^verbatim>\<open>null.textView\<close> are
  caught by it.
\<close>

definition assistantResponse :: "json \<Rightarrow> js_error + json" where
  "assistantResponse data =
    (case get data (ustr ''response'') of
       Inl e \<Rightarrow> Inl e
     | Inr None \<Rightarrow> Inr data
     | Inr (Some response) \<Rightarrow>
        if truthy (Some response) then
          (case JSON_parse (ToString response) of
             None \<Rightarrow> Inr (fallbackResponse response data)
           | Some parsedResponse \<Rightarrow>
              (case get parsedResponse (ustr ''textView'') of
                 Inl e \<Rightarrow> Inr (fallbackResponse response data)
               | Inr textView \<Rightarrow>
                  if truthy textView then Inr parsedResponse
                  else Inr (fallbackResponse response data)))
        else Inr data)"

subsection \<open>sendMessage\<close>

datatype sender = User | Assistant

record message =
  msg_id :: js_string
  msg_sender :: sender
  msg_content :: js_string
  created_at :: js_string

record http_response =
  ok :: bool
  status :: nat
  json_body :: "js_error + json"

text \<open>
  The collaborators that \<open>sendMessage\<close> awaits, each with the outcome of a call:
  \<open>createNewSession\<close> resolves to an id or to \<^verbatim>\<open>null\<close>; \<open>saveMessage\<close> and
  \<open>updateSessionTitle\<close> resolve (\<open>None\<close>) or reject; \<open>fetch\<close> rejects on a network
  failure and resolves to a response otherwise, whose \<^verbatim>\<open>json()\<close> rejects on a body that
  is not JSON. The five \<^verbatim>\<open>import.meta.env\<close> constants are configuration.
\<close>

record collaborators =
  createNewSession :: "js_error + js_string option"
  saveMessage :: "js_string \<Rightarrow> sender \<Rightarrow> js_error option"
  updateSessionTitle :: "js_string \<Rightarrow> js_string \<Rightarrow> js_error option"
  fetch :: "js_string \<Rightarrow> js_string \<Rightarrow> js_string \<Rightarrow> js_error + http_response"
  VITE_AGENT_API_URL :: js_string
  VITE_AGENT_API_KEY :: js_string
  VITE_DEFAULT_USER_EMAIL :: js_string
  VITE_AGENT_ID :: js_string
  VITE_SESSION_ID :: js_string

text \<open>
  The state that \<open>sendMessage\<close> reads and writes. \<open>inputMessage\<close>, \<open>isLoading\<close> and
  \<open>error\<close> are the component's own; \<open>user\<close>, \<open>currentSessionId\<close> and \<open>messages\<close> come
  from the hooks.

  \<open>saveMessage\<close> and \<open>updateSessionTitle\<close> belong to \<^verbatim>\<open>useChatSession\<close>, which is
  not among the sources: they are parameters, and what they persist is recorded as the
  arguments of the calls that resolved, in order, in \<open>saved\<close> and \<open>titles\<close>. \<open>toasts\<close>
  holds the titles of the notifications shown.
\<close>

record state =
  inputMessage :: js_string
  isLoading :: bool
  error :: "js_string option"
  user :: "js_string option"
  currentSessionId :: "js_string option"
  messages :: "message list"
  saved :: "(js_string \<times> sender) list"
  titles :: "(js_string \<times> js_string) list"
  toasts :: "js_string list"

definition errorMessage :: js_string where
  "errorMessage = ustr ''I'' @ [0x27] @ ustr ''m sorry, I'' @ [0x27] @
     ustr ''m having trouble connecting right now. Please try again in a moment.''"

definition requestBody :: "collaborators \<Rightarrow> js_string \<Rightarrow> js_string" where
  "requestBody env userMessageContent =
    JSON_stringify (JObj
      [(ustr ''user_id'', JStr (VITE_DEFAULT_USER_EMAIL env)),
       (ustr ''agent_id'', JStr (VITE_AGENT_ID env)),
       (ustr ''session_id'', JStr (VITE_SESSION_ID env)),
       (ustr ''message'', JStr userMessageContent)])"

text \<open>
  The body of the \<^verbatim>\<open>try\<close>: the request, the status check, the decoding of the body, the
  normalisation and the save of the serialised reply. The second component is the
  exception that leaves the block, if any.
\<close>

definition try_block :: "collaborators \<Rightarrow> js_string \<Rightarrow> state \<Rightarrow> state \<times> js_error option" where
  "try_block env userMessageContent s =
    (case fetch env (VITE_AGENT_API_URL env) (VITE_AGENT_API_KEY env)
            (requestBody env userMessageContent) of
       Inl e \<Rightarrow> (s, Some e)
     | Inr response \<Rightarrow>
        if \<not> ok response then (s, Some (HttpError (status response)))
        else (case json_body response of
           Inl e \<Rightarrow> (s, Some e)
         | Inr data \<Rightarrow>
            (case assistantResponse data of
               Inl e \<Rightarrow> (s, Some e)
             | Inr reply \<Rightarrow>
                (case saveMessage env (JSON_stringify reply) Assistant of
                   Some e \<Rightarrow> (s, Some e)
                 | None \<Rightarrow>
                    (s\<lparr>saved := saved s @ [(JSON_stringify reply, Assistant)]\<rparr>, None)))))"

text \<open>
  The \<^verbatim>\<open>catch\<close>: the error banner, the toast and the save of the apology, which may
  reject in its turn.
\<close>

definition catch_block :: "collaborators \<Rightarrow> state \<Rightarrow> state \<times> js_error option" where
  "catch_block env s =
    (let s1 = s\<lparr>error := Some (ustr
                ''Failed to send message. Please check your connection and try again.''),
               toasts := toasts s @ [ustr ''Connection Error'']\<rparr>
     in case saveMessage env errorMessage Assistant of
          Some e \<Rightarrow> (s1, Some e)
        | None \<Rightarrow> (s1\<lparr>saved := saved s1 @ [(errorMessage, Assistant)]\<rparr>, None))"

definition finally_block :: "state \<Rightarrow> state" where
  "finally_block s = s\<lparr>isLoading := False\<rparr>"

definition try_catch_finally ::
  "collaborators \<Rightarrow> js_string \<Rightarrow> state \<Rightarrow> state \<times> js_error option" where
  "try_catch_finally env userMessageContent s =
    (case try_block env userMessageContent s of
       (s1, None) \<Rightarrow> (finally_block s1, None)
     | (s1, Some e) \<Rightarrow>
        (case catch_block env s1 of (s2, r) \<Rightarrow> (finally_block s2, r)))"

text \<open>\<^verbatim>\<open>!sessionId\<close> for a value that is a string or \<^verbatim>\<open>null\<close>.\<close>

fun no_session :: "js_string option \<Rightarrow> bool" where
  "no_session None = True"
| "no_session (Some sid) = (sid = [])"

definition isFirstMessage :: "message list \<Rightarrow> bool" where
  "isFirstMessage ms =
    (length (filter (\<lambda>msg. \<not> prefix (ustr ''welcome-'') (msg_id msg)) ms) \<le> 1)"

text \<open>
  Lines 98 to 193, with the session id in hand: the input is cleared and the flag set,
  the user's message is saved, the title is updated for a first message, and the
  \<^verbatim>\<open>try\<close> statement runs. The two awaits between \<^verbatim>\<open>setIsLoading(true)\<close> and \<^verbatim>\<open>try\<close>
  are outside the \<^verbatim>\<open>try\<close>, so a rejection there leaves the function at once.
\<close>

definition send_in_session :: "collaborators \<Rightarrow> js_string \<Rightarrow> state \<Rightarrow> state \<times> js_error option" where
  "send_in_session env sessionId s =
    (let userMessageContent = inputMessage s;
         s1 = s\<lparr>inputMessage := [], isLoading := True, error := None\<rparr>
     in case saveMessage env userMessageContent User of
          Some e \<Rightarrow> (s1, Some e)
        | None \<Rightarrow>
           (let s2 = s1\<lparr>saved := saved s1 @ [(userMessageContent, User)]\<rparr>
            in if isFirstMessage (messages s) then
                 (case updateSessionTitle env sessionId userMessageContent of
                    Some e \<Rightarrow> (s2, Some e)
                  | None \<Rightarrow>
                     try_catch_finally env userMessageContent
                       (s2\<lparr>titles := titles s2 @ [(sessionId, userMessageContent)]\<rparr>))
               else try_catch_finally env userMessageContent s2))"

text \<open>
  \<open>sendMessage\<close> from its first line to the settling of its promise: the state after
  it, and the rejection if the promise rejects. The guard returns at once; a session is
  created when there is none, and the function returns when that yields no id.
\<close>

definition sendMessage :: "collaborators \<Rightarrow> state \<Rightarrow> state \<times> js_error option" where
  "sendMessage env s =
    (if trim (inputMessage s) = [] \<or> isLoading s \<or> user s = None then (s, None)
     else
       (case (if no_session (currentSessionId s) then createNewSession env
              else Inr (currentSessionId s)) of
          Inl e \<Rightarrow> (s, Some e)
        | Inr sessionId \<Rightarrow>
           (case sessionId of
              None \<Rightarrow> (s, None)
            | Some sid \<Rightarrow>
               if sid = [] then (s, None)
               else send_in_session env sid s)))"

subsection \<open>renderMessageContent\<close>

datatype view_mode = TextMode | DashboardMode

text \<open>
  What the function returns: the dashboard component with its \<open>content\<close>, the markdown
  of \<open>textContent\<close> with raw HTML enabled, or the markdown of the raw content without it
  (the \<^verbatim>\<open>catch\<close>).
\<close>

datatype element =
    DashboardRenderer json
  | ProseMarkdown json
  | FallbackMarkdown js_string

text \<open>
  \<^verbatim>\<open>
  let parsedContent;
  try { parsedContent = JSON.parse(message.content); }
  catch (firstError) {
    try { parsedContent = JSON.parse(JSON.parse(message.content)); }
    catch (secondError) { throw new Error('Not valid JSON'); }
  }\<close>
\<close>

definition parsedContent :: "js_string \<Rightarrow> js_error + json" where
  "parsedContent content =
    (case JSON_parse content of
       Some v \<Rightarrow> Inr v
     | None \<Rightarrow>
        (case Option.bind (JSON_parse content) (\<lambda>inner. JSON_parse (ToString inner)) of
           Some v \<Rightarrow> Inr v
         | None \<Rightarrow> Inl (Error (ustr ''Not valid JSON''))))"

text \<open>
  The second case of the classification: \<open>textContent\<close> is \<^verbatim>\<open>parsedContent.response\<close>
  unless that parses to a value with a truthy \<^verbatim>\<open>textView\<close>; the inner \<^verbatim>\<open>try\<close> swallows
  both exceptions. Then \<^verbatim>\<open>module_outputs\<close> replaces a falsy \<open>dashboardContent\<close>.
\<close>

definition oldFormat :: "json \<Rightarrow> json \<Rightarrow> json \<times> json option" where
  "oldFormat parsed response =
    (let none = (response, Some JNull);
         (textContent, dashboardContent) =
           (case JSON_parse (ToString response) of
              None \<Rightarrow> none
            | Some responseJson \<Rightarrow>
               (case get responseJson (ustr ''textView'') of
                  Inl e \<Rightarrow> none
                | Inr None \<Rightarrow> none
                | Inr (Some textView) \<Rightarrow>
                   if truthy (Some textView)
                   then (textView, js_member responseJson (ustr ''dashboardView''))
                   else none))
     in if \<not> truthy dashboardContent \<and> truthy (js_member parsed (ustr ''module_outputs''))
        then (textContent, js_member parsed (ustr ''module_outputs''))
        else (textContent, dashboardContent))"

text \<open>
  The three cases, from \<^verbatim>\<open>let textContent = ''; let dashboardContent = null;\<close> on:
  a truthy \<^verbatim>\<open>textView\<close>, else a truthy \<^verbatim>\<open>response\<close>, else the raw content.
  \<open>withoutTextView\<close> is the second and the third.
\<close>

definition withoutTextView :: "js_string \<Rightarrow> json \<Rightarrow> json \<times> json option" where
  "withoutTextView content parsed =
    (case js_member parsed (ustr ''response'') of
       None \<Rightarrow> (JStr content, Some JNull)
     | Some response \<Rightarrow>
        if truthy (Some response) then oldFormat parsed response
        else (JStr content, Some JNull))"

definition classifyContent :: "js_string \<Rightarrow> json \<Rightarrow> js_error + json \<times> json option" where
  "classifyContent content parsed =
    (case get parsed (ustr ''textView'') of
       Inl e \<Rightarrow> Inl e
     | Inr None \<Rightarrow> Inr (withoutTextView content parsed)
     | Inr (Some textView) \<Rightarrow>
        if truthy (Some textView)
        then Inr (textView, js_member parsed (ustr ''dashboardView''))
        else Inr (withoutTextView content parsed))"

text \<open>
  The body of the outer \<^verbatim>\<open>try\<close>, and the function with its \<^verbatim>\<open>catch\<close>, which returns the
  fallback element whatever was thrown.
\<close>

definition render_try :: "view_mode \<Rightarrow> js_string \<Rightarrow> js_error + element" where
  "render_try viewMode content =
    (case parsedContent content of
       Inl e \<Rightarrow> Inl e
     | Inr parsed \<Rightarrow>
        (case classifyContent content parsed of
           Inl e \<Rightarrow> Inl e
         | Inr (textContent, dashboardContent) \<Rightarrow>
            (case dashboardContent of
               None \<Rightarrow> Inr (ProseMarkdown textContent)
             | Some d \<Rightarrow>
                if viewMode = DashboardMode \<and> truthy (Some d) then Inr (DashboardRenderer d)
                else Inr (ProseMarkdown textContent))))"

definition renderMessageContent ::
  "(js_string \<Rightarrow> view_mode option) \<Rightarrow> message \<Rightarrow> js_error + element" where
  "renderMessageContent messageViewModes message =
    (let viewMode = (case messageViewModes (msg_id message) of
                       None \<Rightarrow> TextMode | Some m \<Rightarrow> m)
     in case render_try viewMode (msg_content message) of
          Inl e \<Rightarrow> Inr (FallbackMarkdown (msg_content message))
        | Inr el \<Rightarrow> Inr el)"

section \<open>Auxiliary notions\<close>

subsection \<open>The spec's words, for comparison with the code\<close>

text \<open>
  The spec describes the chart transform as a positional zip of the labels with the
  values in which a missing value defaults to 0. \<open>spec_points\<close> applies that reading to
  every chart data, taking an absent array as empty.
\<close>

definition zip_default_zero :: "json list \<Rightarrow> json list \<Rightarrow> point list" where
  "zip_default_zero labels vals =
    map (\<lambda>i. \<lparr>point_label = labels ! i,
              point_value = (if i < length vals then vals ! i else JNum 0)\<rparr>)
      [0..<length labels]"

definition spec_points :: "json option \<Rightarrow> point list" where
  "spec_points data =
    zip_default_zero (elements (Option.bind data (\<lambda>d. js_member d (ustr ''labels''))))
      (elements (Option.bind data (\<lambda>d. js_member d (ustr ''values''))))"




subsection \<open>Notions of the round-trip proof\<close>

text \<open>
  \<open>number_end\<close>: what may follow a number token without being read as part of it.
  \<open>value_start\<close>: the first code unit of a serialised value. \<open>parses v\<close>: the text of
  \<open>v\<close> followed by any such rest parses to \<open>v\<close> and that rest, with fuel from the
  length of the text on.
\<close>

definition number_end :: "js_string \<Rightarrow> bool" where
  "number_end rest \<longleftrightarrow> rest = [] \<or> (\<not> is_digit (hd rest) \<and> hd rest \<notin> {0x2E, 0x45, 0x65})"

definition value_start :: "code_unit \<Rightarrow> bool" where
  "value_start c \<longleftrightarrow> is_digit c \<or> c \<in> {minus_sign, dquote, lbracket, lbrace, 0x6E, 0x74, 0x66}"

definition parses :: "json \<Rightarrow> bool" where
  "parses v \<longleftrightarrow> (\<forall>n rest. length (JSON_stringify v) \<le> n \<longrightarrow> number_end rest \<longrightarrow>
     parse_value n (JSON_stringify v @ rest) = Some (v, rest))"

definition member_text :: "js_string \<times> json \<Rightarrow> js_string" where
  "member_text kv = quote_string (fst kv) @ colon # JSON_stringify (snd kv)"

text \<open>
  \<open>fuel_free p n\<close>: a result of the parser \<open>p\<close> with fuel \<open>n\<close> is shorter than the
  input and is the result with every fuel from the number of consumed code units on.
\<close>

definition fuel_free :: "(nat \<Rightarrow> js_string \<Rightarrow> ('a \<times> js_string) option) \<Rightarrow> nat \<Rightarrow> bool" where
  "fuel_free p n \<longleftrightarrow>
    (\<forall>cs x r. p n cs = Some (x, r) \<longrightarrow>
       length r < length cs \<and> (\<forall>m. length cs - length r \<le> m \<longrightarrow> p m cs = Some (x, r)))"

subsection \<open>Example inputs\<close>

definition chart_3_2 :: json where
  "chart_3_2 = JObj [(ustr ''data'', JObj
     [(ustr ''labels'', JArr [JStr (ustr ''a''), JStr (ustr ''b''), JStr (ustr ''c'')]),
      (ustr ''values'', JArr [JNum 1, JNum 2])])]"

definition chart_no_values :: json where
  "chart_no_values = JObj [(ustr ''title'', JStr (ustr ''t'')),
     (ustr ''data'', JObj [(ustr ''labels'', JArr [JStr (ustr ''a''), JStr (ustr ''b'')])])]"

definition alert_watch_spend :: js_string where
  "alert_watch_spend = [0x26A0, 0xFE0F, 0x20] @ ustr ''watch spend'' @ [0x20, 0x2705]"

text \<open>
  A signed-in user who has typed \<open>hello\<close> in an existing session, and collaborators
  that all resolve; \<open>agent\<close> is the outcome of the request.
\<close>

definition s_hello :: state where
  "s_hello = \<lparr>inputMessage = ustr ''hello'', isLoading = False, error = None,
     user = Some (ustr ''u1''), currentSessionId = Some (ustr ''s1''), messages = [],
     saved = [], titles = [], toasts = []\<rparr>"

definition env_with :: "(js_error + http_response) \<Rightarrow> collaborators" where
  "env_with agent = \<lparr>createNewSession = Inr (Some (ustr ''s2'')),
     saveMessage = (\<lambda>content sender. None),
     updateSessionTitle = (\<lambda>sid title. None),
     fetch = (\<lambda>url key body. agent),
     VITE_AGENT_API_URL = ustr ''https://agent.example/chat'', VITE_AGENT_API_KEY = ustr ''k'',
     VITE_DEFAULT_USER_EMAIL = ustr ''u@example.org'', VITE_AGENT_ID = ustr ''a1'',
     VITE_SESSION_ID = ustr ''s0''\<rparr>"


definition replies :: "json \<Rightarrow> js_error + http_response" where
  "replies body = Inr \<lparr>ok = True, status = 200, json_body = Inr body\<rparr>"


definition reply_hi :: json where
  "reply_hi = JObj [(ustr ''textView'', JStr (ustr ''hi'')), (ustr ''dashboardView'', JObj [])]"


definition msg_of :: "js_string \<Rightarrow> message" where
  "msg_of content = \<lparr>msg_id = ustr ''m1'', msg_sender = Assistant, msg_content = content,
     created_at = ustr ''2025-01-01T00:00:00Z''\<rparr>"


section \<open>JSON.parse inverts JSON.stringify\<close>

subsection \<open>Numbers\<close>

lemma small_nat_cases: "d < 10 \<Longrightarrow> d \<in> {0,1,2,3,4,5,6,7,8,9::nat}"
  by auto

lemma is_digit_char: "d < 10 \<Longrightarrow> is_digit (0x30 + of_nat d)"
  by (drule small_nat_cases) (auto simp: is_digit_def)

lemma digit_char_value: "d < 10 \<Longrightarrow> unat (0x30 + of_nat d :: code_unit) - 48 = d"
  by (drule small_nat_cases) auto

lemma digit_char_zero: "d < 10 \<Longrightarrow> (0x30 + of_nat d :: code_unit) = 0x30 \<Longrightarrow> d = 0"
  by (drule small_nat_cases) auto

lemma digits_nonempty: "digits n \<noteq> []"
  by (induction n rule: digits.induct) (subst digits.simps, simp)

lemma digits_all: "list_all is_digit (digits n)"
proof (induction n rule: digits.induct)
  case (1 n)
  show ?case
  proof (cases "n < 10")
    case True
    then show ?thesis by (subst digits.simps) (simp add: is_digit_char)
  next
    case False
    with 1 show ?thesis by (subst digits.simps) (simp add: is_digit_char)
  qed
qed

lemma digits_value_snoc: "digits_value (ds @ [c]) = 10 * digits_value ds + (unat c - 48)"
  by (simp add: digits_value_def)

lemma digits_value_digits: "digits_value (digits n) = n"
proof (induction n rule: digits.induct)
  case (1 n)
  show ?case
  proof (cases "n < 10")
    case True
    then show ?thesis by (subst digits.simps) (simp add: digits_value_def digit_char_value)
  next
    case False
    with 1 show ?thesis
      by (subst digits.simps) (simp add: digits_value_snoc digit_char_value)
  qed
qed

lemma hd_digits: "hd (digits n) = 0x30 \<Longrightarrow> n = 0"
proof (induction n rule: digits.induct)
  case (1 n)
  show ?case
  proof (cases "n < 10")
    case True
    with 1(2) show ?thesis by (subst (asm) digits.simps) (simp add: digit_char_zero)
  next
    case False
    with 1(2) have "hd (digits (n div 10)) = 0x30"
      by (subst (asm) digits.simps) (simp add: digits_nonempty)
    with 1(1) False have "n div 10 = 0" by simp
    with False show ?thesis by simp
  qed
qed

lemma length_digits_zero: "length (digits 0) = 1"
  by (subst digits.simps) simp

lemma takeWhile_digits: "number_end rest \<Longrightarrow> takeWhile is_digit (digits n @ rest) = digits n"
  using digits_all [of n]
  by (cases rest) (auto simp: number_end_def takeWhile_append list_all_iff)

lemma dropWhile_digits: "number_end rest \<Longrightarrow> dropWhile is_digit (digits n @ rest) = rest"
  using digits_all [of n]
  by (cases rest) (auto simp: number_end_def dropWhile_append list_all_iff)

lemma hd_digits_not_minus: "hd (digits n) \<noteq> minus_sign"
  using digits_all [of n] digits_nonempty [of n]
  by (cases "digits n") (auto simp: is_digit_def)

lemma parse_number_show_int:
  assumes "number_end rest"
  shows "parse_number (show_int i @ rest) = Some (JNum i, rest)"
proof (cases "i < 0")
  case True
  let ?n = "nat (- i)"
  have nz: "?n \<noteq> 0" using True by simp
  have lead: "\<not> (hd (digits ?n) = 0x30 \<and> length (digits ?n) > 1)"
    using hd_digits [of ?n] nz by blast
  have rest: "\<not> (rest \<noteq> [] \<and> hd rest \<in> {0x2E, 0x45, 0x65})"
    using assms by (auto simp: number_end_def)
  show ?thesis
    using True lead rest
    by (simp add: parse_number_def show_int_def takeWhile_digits [OF assms] dropWhile_digits [OF assms]
        digits_nonempty digits_value_digits Let_def)
next
  case False
  let ?n = "nat i"
  have lead: "\<not> (hd (digits ?n) = 0x30 \<and> length (digits ?n) > 1)"
    using hd_digits [of ?n] length_digits_zero by (metis less_irrefl)
  have rest: "\<not> (rest \<noteq> [] \<and> hd rest \<in> {0x2E, 0x45, 0x65})"
    using assms by (auto simp: number_end_def)
  have nm: "\<not> (digits ?n @ rest \<noteq> [] \<and> hd (digits ?n @ rest) = minus_sign)"
    using hd_digits_not_minus [of ?n] digits_nonempty [of ?n] by simp
  show ?thesis
    using False lead rest nm
    by (simp add: parse_number_def show_int_def takeWhile_digits [OF assms] dropWhile_digits [OF assms]
        digits_nonempty digits_value_digits Let_def)
qed

subsection \<open>Strings\<close>

lemma hex_table: "list_all (\<lambda>d. hex_value (hex_digit d) = Some d) [0..<16]"
  by code_simp

lemma hex_value_hex_digit: "d < 16 \<Longrightarrow> hex_value (hex_digit d) = Some d"
  using hex_table by (simp add: list_all_iff)

lemma nat_hex_recompose:
  fixes n :: nat
  shows "n div 4096 * 4096 + n div 256 mod 16 * 256 + n div 16 mod 16 * 16 + n mod 16 = n"
proof -
  define b a h3 where "b = n div 16" and "a = n div 256" and "h3 = n div 4096"
  have ab: "a = b div 16" and a4: "h3 = a div 16"
    by (simp_all add: a_def b_def h3_def div_mult2_eq)
  have 1: "b * 16 + n mod 16 = n" unfolding b_def by simp
  have 2: "a * 16 + b mod 16 = b" unfolding ab by simp
  have 3: "h3 * 16 + a mod 16 = a" unfolding a4 by simp
  have "h3 * 4096 + a mod 16 * 256 + b mod 16 * 16 + n mod 16 = n"
    using 1 2 3 by linarith
  then show ?thesis unfolding b_def a_def h3_def .
qed

lemma unat_hex_recompose:
  fixes c :: code_unit
  shows "of_nat (unat c div 4096 * 4096 + unat c div 256 mod 16 * 256 + unat c div 16 mod 16 * 16 + unat c mod 16) = c"
  by (simp only: nat_hex_recompose) simp

lemma unat_code_unit_bound: "unat (c :: code_unit) < 65536"
  using unsigned_less [of c, where 'a = nat] by simp

lemma parse_unicode_escape:
  "parse_string_units (unicode_escape c @ cs) = cons_unit c (parse_string_units cs)"
proof -
  have a: "unat c div 4096 < 16" using unat_code_unit_bound [of c] by simp
  have b: "unat c div 256 mod 16 < 16" "unat c div 16 mod 16 < 16" "unat c mod 16 < 16" by simp_all
  show ?thesis
    using unat_hex_recompose [of c]
    by (simp add: unicode_escape_def hex_value_hex_digit a b)
qed

lemma parse_plain_unit:
  "c \<noteq> dquote \<Longrightarrow> c \<noteq> backslash \<Longrightarrow> \<not> c < 0x20 \<Longrightarrow>
   parse_string_units (c # cs) = cons_unit c (parse_string_units cs)"
  by simp

lemma surrogate_plain:
  "is_lead_surrogate c \<or> is_trail_surrogate c \<Longrightarrow> c \<noteq> dquote \<and> c \<noteq> backslash \<and> \<not> c < 0x20"
  by (auto simp: is_lead_surrogate_def is_trail_surrogate_def word_le_nat_alt word_less_nat_alt)

lemma parse_surrogate:
  "is_lead_surrogate c \<or> is_trail_surrogate c \<Longrightarrow>
   parse_string_units (c # cs) = cons_unit c (parse_string_units cs)"
  using surrogate_plain [of c] by (simp del: parse_string_units.simps add: parse_plain_unit)

lemma parse_quote_units_step:
  assumes tail: "parse_string_units (quote_units cs @ dquote # rest) = Some (cs, rest)"
    and tail2: "\<And>d ds. cs = d # ds \<Longrightarrow>
      parse_string_units (quote_units ds @ dquote # rest) = Some (ds, rest)"
  shows "parse_string_units (quote_units (c # cs) @ dquote # rest) = Some (c # cs, rest)"
proof -
  let ?short = "c = 0x08 \<or> c = 0x09 \<or> c = 0x0A \<or> c = 0x0C \<or> c = 0x0D \<or> c = dquote \<or> c = backslash"
  show ?thesis
  proof (cases ?short)
    case True
    then show ?thesis using tail by (auto simp: cons_unit_def simple_escape_def)
  next
    case ns: False
    show ?thesis
    proof (cases "c < 0x20")
      case True
      then show ?thesis using tail ns
        by (simp del: parse_string_units.simps add: parse_unicode_escape cons_unit_def)
    next
      case nc: False
      show ?thesis
      proof (cases "is_lead_surrogate c")
        case lead: True
        show ?thesis
        proof (cases cs)
          case Nil
          then show ?thesis using ns nc lead
            by (simp del: parse_string_units.simps add: parse_unicode_escape cons_unit_def) simp
        next
          case (Cons d ds)
          show ?thesis
          proof (cases "is_trail_surrogate d")
            case True
            then show ?thesis using tail2 [OF Cons] ns nc lead Cons
              by (simp del: parse_string_units.simps add: parse_surrogate cons_unit_def)
          next
            case False
            then show ?thesis using tail ns nc lead Cons
              by (simp del: parse_string_units.simps add: parse_unicode_escape cons_unit_def)
          qed
        qed
      next
        case nl: False
        show ?thesis
        proof (cases "is_trail_surrogate c")
          case True
          then show ?thesis using tail ns nc nl
            by (simp del: parse_string_units.simps add: parse_unicode_escape cons_unit_def)
        next
          case False
          then show ?thesis using tail ns nc nl
            by (simp del: parse_string_units.simps add: parse_plain_unit cons_unit_def)
        qed
      qed
    qed
  qed
qed

lemma parse_quote_units:
  "parse_string_units (quote_units s @ dquote # rest) = Some (s, rest)"
proof (induction s rule: length_induct)
  case (1 s)
  show ?case
  proof (cases s)
    case Nil
    then show ?thesis by simp
  next
    case (Cons c cs)
    have "parse_string_units (quote_units (c # cs) @ dquote # rest) = Some (c # cs, rest)"
    proof (rule parse_quote_units_step)
      show "parse_string_units (quote_units cs @ dquote # rest) = Some (cs, rest)"
        using 1 Cons by simp
    next
      fix d ds
      assume "cs = d # ds"
      then show "parse_string_units (quote_units ds @ dquote # rest) = Some (ds, rest)"
        using 1 Cons by simp
    qed
    then show ?thesis using Cons by simp
  qed
qed

lemma parse_quote_string:
  "parse_string_units (tl (quote_string s) @ rest) = Some (s, rest)"
  by (simp add: quote_string_def parse_quote_units del: parse_string_units.simps)

subsection \<open>Values\<close>

lemma skip_ws_start: "\<not> json_ws c \<Longrightarrow> skip_ws (c # cs) = c # cs"
  by (simp add: skip_ws_def)

lemma value_start_not_ws: "value_start c \<Longrightarrow> \<not> json_ws c \<and> c \<noteq> rbracket \<and> c \<noteq> rbrace"
  by (auto simp: value_start_def json_ws_def is_digit_def)

lemma show_int_start: "\<exists>c cs. show_int i = c # cs \<and> (is_digit c \<or> c = minus_sign)"
proof (cases "i < 0")
  case True
  then show ?thesis by (simp add: show_int_def)
next
  case False
  obtain c cs where "digits (nat i) = c # cs"
    using digits_nonempty [of "nat i"] by (cases "digits (nat i)") auto
  moreover have "is_digit c" using digits_all [of "nat i"] calculation by simp
  ultimately show ?thesis using False by (simp add: show_int_def)
qed

lemma stringify_start: "\<exists>c cs. JSON_stringify v = c # cs \<and> value_start c"
proof (cases v)
  case (JNum i)
  then show ?thesis using show_int_start [of i] by (auto simp: value_start_def)
qed (auto simp: value_start_def ustr_def quote_string_def)

lemma number_start_distinct:
  "is_digit c \<or> c = minus_sign \<Longrightarrow>
   \<not> json_ws c \<and> c \<noteq> lbrace \<and> c \<noteq> lbracket \<and> c \<noteq> dquote \<and> c \<noteq> 0x74 \<and> c \<noteq> 0x66 \<and> c \<noteq> 0x6E"
  by (auto simp: json_ws_def is_digit_def)

lemma parse_value_number:
  "is_digit c \<or> c = minus_sign \<Longrightarrow> parse_value (Suc n) (c # r) = parse_number (c # r)"
  by (drule number_start_distinct) (simp add: skip_ws_def ustr_def)

lemma number_end_simps [simp]:
  "number_end (comma # cs)" "number_end (rbracket # cs)" "number_end (rbrace # cs)" "number_end []"
  by (simp_all add: number_end_def is_digit_def)

lemma parses_scalar:
  "parses JNull" "parses (JBool b)" "parses (JNum i)" "parses (JStr s)"
proof -
  show "parses JNull"
    unfolding parses_def
  proof (intro allI impI)
    fix n rest assume "length (JSON_stringify JNull) \<le> n"
    then obtain m where "n = Suc m" by (cases n) (auto simp: ustr_def)
    then show "parse_value n (JSON_stringify JNull @ rest) = Some (JNull, rest)"
      by (simp add: ustr_def skip_ws_def json_ws_def)
  qed
  show "parses (JBool b)"
    unfolding parses_def
  proof (intro allI impI)
    fix n rest assume "length (JSON_stringify (JBool b)) \<le> n"
    then obtain m where "n = Suc m" by (cases n; cases b) (auto simp: ustr_def)
    then show "parse_value n (JSON_stringify (JBool b) @ rest) = Some (JBool b, rest)"
      by (simp add: ustr_def skip_ws_def json_ws_def)
  qed
  show "parses (JNum i)"
    unfolding parses_def
  proof (intro allI impI)
    fix n rest assume len: "length (JSON_stringify (JNum i)) \<le> n" and ne: "number_end rest"
    obtain c cs where c: "show_int i = c # cs" "is_digit c \<or> c = minus_sign"
      using show_int_start by blast
    with len obtain m where "n = Suc m" by (cases n) auto
    then have "parse_value n (show_int i @ rest) = parse_number (show_int i @ rest)"
      using c parse_value_number [of c m "cs @ rest"] by simp
    then show "parse_value n (JSON_stringify (JNum i) @ rest) = Some (JNum i, rest)"
      using parse_number_show_int [OF ne] by simp
  qed
  show "parses (JStr s)"
    unfolding parses_def
  proof (intro allI impI)
    fix n rest assume "length (JSON_stringify (JStr s)) \<le> n"
    then obtain m where "n = Suc m" by (cases n) (auto simp: quote_string_def)
    then show "parse_value n (JSON_stringify (JStr s) @ rest) = Some (JStr s, rest)"
      using parse_quote_units [of s rest]
      by (simp add: quote_string_def skip_ws_def json_ws_def del: parse_string_units.simps)
  qed
qed

lemma join_comma_start:
  assumes "xs \<noteq> []" and "\<forall>x\<in>set xs. \<exists>c cs. x = c # cs \<and> P c"
  shows "\<exists>c cs. join_comma xs = c # cs \<and> P c"
proof (cases xs)
  case Nil
  with assms show ?thesis by simp
next
  case (Cons x ys)
  then obtain c cs where "x = c # cs" "P c" using assms by auto
  then show ?thesis using Cons by (cases ys) auto
qed

lemma parse_elements_join:
  assumes "\<forall>v\<in>set vs. parses v" and "vs \<noteq> []"
    and "length (join_comma (map JSON_stringify vs)) < n"
  shows "parse_elements n (join_comma (map JSON_stringify vs) @ rbracket # rest) = Some (vs, rest)"
  using assms
proof (induction vs arbitrary: n)
  case Nil
  then show ?case by simp
next
  case (Cons v ws)
  from Cons.prems obtain m where n: "n = Suc m" by (cases n) auto
  have pv: "parses v" using Cons.prems by simp
  show ?case
  proof (cases ws)
    case Nil
    have "length (JSON_stringify v) \<le> m" using Cons.prems n Nil by simp
    then have "parse_value m (JSON_stringify v @ rbracket # rest) = Some (v, rbracket # rest)"
      using pv by (simp add: parses_def)
    then show ?thesis using n Nil by (simp add: skip_ws_def json_ws_def)
  next
    case (Cons w ws')
    let ?tail = "join_comma (map JSON_stringify ws) @ rbracket # rest"
    have len: "length (JSON_stringify v) \<le> m" "length (join_comma (map JSON_stringify ws)) < m"
      using Cons.prems n Cons by simp_all
    have "parse_value m (JSON_stringify v @ comma # ?tail) = Some (v, comma # ?tail)"
      using pv len by (simp add: parses_def)
    moreover have "parse_elements m ?tail = Some (ws, rest)"
      using Cons.IH [of m] Cons.prems len Cons by simp
    ultimately show ?thesis using n Cons by (simp add: skip_ws_def json_ws_def)
  qed
qed

lemma parse_members_join:
  assumes "\<forall>kv\<in>set kvs. parses (snd kv)" and "kvs \<noteq> []"
    and "length (join_comma (map member_text kvs)) < n"
  shows "parse_members n (join_comma (map member_text kvs) @ rbrace # rest) = Some (kvs, rest)"
  using assms
proof (induction kvs arbitrary: n)
  case Nil
  then show ?case by simp
next
  case (Cons kv ws)
  from Cons.prems obtain m where n: "n = Suc m" by (cases n) auto
  obtain k v where kv: "kv = (k, v)" by (cases kv)
  have mt: "member_text (k, v) = dquote # quote_units k @ dquote # colon # JSON_stringify v"
    by (simp add: member_text_def quote_string_def)
  have pv: "parses v" using Cons.prems kv by simp
  have key: "\<And>r. parse_string_units (quote_units k @ dquote # r) = Some (k, r)"
    by (rule parse_quote_units)
  show ?case
  proof (cases ws)
    case Nil
    have "length (JSON_stringify v) \<le> m"
      using Cons.prems n Nil kv by (simp add: mt)
    then have "parse_value m (JSON_stringify v @ rbrace # rest) = Some (v, rbrace # rest)"
      using pv by (simp add: parses_def)
    then show ?thesis using n Nil kv key
      by (simp add: skip_ws_def json_ws_def mt del: parse_string_units.simps)
  next
    case ws: (Cons w ws')
    let ?tail = "join_comma (map member_text ws) @ rbrace # rest"
    have "join_comma (map member_text (kv # ws))
          = member_text (k, v) @ comma # join_comma (map member_text ws)"
      using ws kv by simp
    then have len: "length (JSON_stringify v) \<le> m" "length (join_comma (map member_text ws)) < m"
      using Cons.prems(3) n by (simp_all add: mt)
    have "parse_value m (JSON_stringify v @ comma # ?tail) = Some (v, comma # ?tail)"
      using pv len by (simp add: parses_def)
    moreover have "parse_members m ?tail = Some (ws, rest)"
      using Cons.IH [of m] Cons.prems len ws by simp
    moreover have "join_comma (map member_text (kv # ws)) @ rbrace # rest
          = dquote # quote_units k @ dquote # colon # JSON_stringify v @ comma # ?tail"
      using ws kv by (simp add: mt)
    ultimately show ?thesis using n kv key
      by (simp add: skip_ws_def json_ws_def del: parse_string_units.simps)
  qed
qed

lemma update_fresh: "k \<notin> fst ` set al \<Longrightarrow> AList.update k v al = al @ [(k, v)]"
  by (induction al) auto

lemma object_of_members_acc:
  "distinct (map fst (acc @ ms)) \<Longrightarrow>
   foldl (\<lambda>al kv. AList.update (fst kv) (snd kv) al) acc ms = acc @ ms"
proof (induction ms arbitrary: acc)
  case Nil
  then show ?case by simp
next
  case (Cons m ms)
  have "fst m \<notin> fst ` set acc" using Cons.prems by auto
  then have "AList.update (fst m) (snd m) acc = acc @ [m]" by (simp add: update_fresh)
  then show ?case using Cons.IH [of "acc @ [m]"] Cons.prems by simp
qed

lemma object_of_members_distinct: "distinct (map fst ms) \<Longrightarrow> object_of_members ms = ms"
  using object_of_members_acc [of "[]" ms] by (simp add: object_of_members_def)

lemma stringify_member_eq:
  "map (\<lambda>kv. quote_string (fst kv) @ colon # JSON_stringify (snd kv)) kvs = map member_text kvs"
  by (simp add: member_text_def)

lemma parses_array:
  assumes "\<forall>v\<in>set vs. parses v"
  shows "parses (JArr vs)"
  unfolding parses_def
proof (intro allI impI)
  fix n rest
  assume len: "length (JSON_stringify (JArr vs)) \<le> n"
  then obtain m where n: "n = Suc m" by (cases n) auto
  let ?j = "join_comma (map JSON_stringify vs)"
  show "parse_value n (JSON_stringify (JArr vs) @ rest) = Some (JArr vs, rest)"
  proof (cases "vs = []")
    case True
    then show ?thesis using n by (simp add: skip_ws_def json_ws_def)
  next
    case False
    have "\<forall>x\<in>set (map JSON_stringify vs). \<exists>c cs. x = c # cs \<and> value_start c"
      using stringify_start by auto
    then obtain c cs where j: "?j = c # cs" "value_start c"
      using join_comma_start [of "map JSON_stringify vs" value_start] False by auto
    have c: "\<not> json_ws c" "c \<noteq> rbracket" using value_start_not_ws [OF j(2)] by simp_all
    have "length ?j < m" using len n by simp
    then have "parse_elements m (?j @ rbracket # rest) = Some (vs, rest)"
      using parse_elements_join [OF assms False] by simp
    then have "parse_elements m (c # cs @ rbracket # rest) = Some (vs, rest)"
      using j by simp
    moreover have "JSON_stringify (JArr vs) @ rest = lbracket # c # cs @ rbracket # rest"
      using j by simp
    ultimately show ?thesis using n c
      by (simp add: skip_ws_def json_ws_def del: JSON_stringify.simps)
  qed
qed

lemma parses_object:
  assumes "\<forall>kv\<in>set kvs. parses (snd kv)" and "distinct (map fst kvs)"
  shows "parses (JObj kvs)"
  unfolding parses_def
proof (intro allI impI)
  fix n rest
  assume len: "length (JSON_stringify (JObj kvs)) \<le> n"
  then obtain m where n: "n = Suc m" by (cases n) auto
  let ?j = "join_comma (map member_text kvs)"
  have str: "JSON_stringify (JObj kvs) = lbrace # ?j @ [rbrace]"
    by (simp add: stringify_member_eq)
  show "parse_value n (JSON_stringify (JObj kvs) @ rest) = Some (JObj kvs, rest)"
  proof (cases "kvs = []")
    case True
    then show ?thesis using n by (simp add: skip_ws_def json_ws_def)
  next
    case False
    have "\<forall>x\<in>set (map member_text kvs). \<exists>c cs. x = c # cs \<and> c = dquote"
      by (auto simp: member_text_def quote_string_def)
    then obtain cs where j: "?j = dquote # cs"
      using join_comma_start [of "map member_text kvs" "\<lambda>c. c = dquote"] False by auto
    have "length ?j < m" using len n unfolding str by simp
    then have "parse_members m (?j @ rbrace # rest) = Some (kvs, rest)"
      using parse_members_join [OF assms(1) False] by simp
    then have "parse_members m (dquote # cs @ rbrace # rest) = Some (kvs, rest)"
      using j by simp
    moreover have "JSON_stringify (JObj kvs) @ rest = lbrace # dquote # cs @ rbrace # rest"
      unfolding str using j by simp
    ultimately show ?thesis using n object_of_members_distinct [OF assms(2)]
      by (simp add: skip_ws_def json_ws_def del: JSON_stringify.simps parse_members.simps)
  qed
qed

lemma wf_json_parses: "wf_json v \<Longrightarrow> parses v"
proof (induction v)
  case (JArr vs)
  then show ?case by (intro parses_array) (auto simp: list_all_iff)
next
  case (JObj kvs)
  have "\<forall>kv\<in>set kvs. parses (snd kv)"
  proof
    fix kv assume kv: "kv \<in> set kvs"
    obtain k v where "kv = (k, v)" by (cases kv)
    then show "parses (snd kv)"
      using JObj.IH [of kv v] JObj.prems kv by (auto simp: list_all_iff)
  qed
  then show ?case using JObj.prems by (intro parses_object) auto
qed (simp_all add: parses_scalar)

lemma JSON_parse_stringify: "wf_json v \<Longrightarrow> JSON_parse (JSON_stringify v) = Some v"
proof -
  assume "wf_json v"
  then have "parses v" by (rule wf_json_parses)
  then have "parse_value (length (JSON_stringify v)) (JSON_stringify v @ []) = Some (v, [])"
    unfolding parses_def by (metis number_end_simps(4) order_refl)
  then show ?thesis by (simp add: JSON_parse_def skip_ws_def)
qed

section \<open>The fuel of the parser\<close>

text \<open>
  Every unit of fuel that a successful parse spends is paid for by a code unit that it
  consumes. So a parse that succeeds with some fuel succeeds with every fuel from the
  number of consumed code units on, in particular with the length of the text:
  \<open>JSON_parse\<close> never fails for lack of fuel.
\<close>

lemma skip_ws_length: "length (skip_ws cs) \<le> length cs"
  by (simp add: skip_ws_def length_dropWhile_le)

lemma skip_ws_Cons_length: "skip_ws cs = c # r \<Longrightarrow> length r < length cs"
  using skip_ws_length [of cs] by simp

lemma cons_unit_Some:
  "cons_unit u x = Some (s, r) \<Longrightarrow> \<exists>s'. x = Some (s', r) \<and> s = u # s'"
  by (cases x) (auto simp: cons_unit_def)

lemma parse_string_units_length:
  "parse_string_units cs = Some (s, r) \<Longrightarrow> length r < length cs"
proof (induction cs arbitrary: s r rule: length_induct)
  case (1 cs)
  show ?case
  proof (cases cs)
    case Nil
    with 1 show ?thesis by simp
  next
    case (Cons c cs')
    show ?thesis
    proof (cases "c = dquote")
      case True
      with 1 Cons show ?thesis by simp
    next
      case nq: False
      show ?thesis
      proof (cases "c = backslash")
        case True
        then obtain e r0 where cs': "cs' = e # r0"
          using 1(2) Cons by (cases cs') auto
        show ?thesis
        proof (cases "e = 0x75")
          case True
          then obtain h1 h2 h3 h4 r' u where r0: "r0 = h1 # h2 # h3 # h4 # r'"
            and p: "cons_unit u (parse_string_units r') = Some (s, r)"
            using 1(2) Cons cs' \<open>c = backslash\<close>
            by (auto split: list.splits option.splits)
          from cons_unit_Some [OF p] obtain s' where "parse_string_units r' = Some (s', r)" by auto
          then have "length r < length r'" using 1(1) Cons cs' r0 by simp
          then show ?thesis using Cons cs' r0 by simp
        next
          case False
          then obtain u where p: "cons_unit u (parse_string_units r0) = Some (s, r)"
            using 1(2) Cons cs' \<open>c = backslash\<close> by (auto split: option.splits)
          from cons_unit_Some [OF p] obtain s' where "parse_string_units r0 = Some (s', r)" by auto
          then have "length r < length r0" using 1(1) Cons cs' by simp
          then show ?thesis using Cons cs' by simp
        qed
      next
        case False
        then have p: "cons_unit c (parse_string_units cs') = Some (s, r)"
          using 1(2) Cons nq by (auto split: if_splits)
        from cons_unit_Some [OF p] obtain s' where "parse_string_units cs' = Some (s', r)" by auto
        then have "length r < length cs'" using 1(1) Cons by simp
        then show ?thesis using Cons by simp
      qed
    qed
  qed
qed

lemma dropWhile_shorter: "takeWhile P xs \<noteq> [] \<Longrightarrow> length (dropWhile P xs) < length xs"
  by (cases xs) (auto simp: length_dropWhile_le less_Suc_eq_le split: if_splits)

lemma parse_number_length:
  "parse_number cs = Some (v, r) \<Longrightarrow> length r < length cs"
proof -
  assume a: "parse_number cs = Some (v, r)"
  let ?cs1 = "if cs \<noteq> [] \<and> hd cs = minus_sign then tl cs else cs"
  have "takeWhile is_digit ?cs1 \<noteq> []" and "r = dropWhile is_digit ?cs1"
    using a by (auto simp: parse_number_def Let_def split: if_splits)
  then have "length r < length ?cs1" using dropWhile_shorter by blast
  moreover have "length ?cs1 \<le> length cs" by simp
  ultimately show ?thesis by simp
qed

lemma prefix_drop_length:
  "prefix p xs \<Longrightarrow> p \<noteq> [] \<Longrightarrow> length (drop (length p) xs) < length xs"
  by (auto simp: prefix_def)

lemma parse_value_flat:
  assumes "skip_ws cs = c # r0" and "c \<noteq> lbrace" and "c \<noteq> lbracket"
  shows "parse_value (Suc m) cs = parse_value (Suc n) cs"
  using assms by simp

lemma parse_value_flat_length:
  assumes a: "parse_value (Suc n) cs = Some (v, r)"
    and sk: "skip_ws cs = c # r0" and c: "c \<noteq> lbrace" "c \<noteq> lbracket"
  shows "length r < length cs"
proof -
  have l0: "length (c # r0) \<le> length cs" using skip_ws_length [of cs] sk by simp
  consider (str) "c = dquote"
    | (t) "c \<noteq> dquote" "prefix (ustr ''true'') (c # r0)"
    | (f) "c \<noteq> dquote" "\<not> prefix (ustr ''true'') (c # r0)" "prefix (ustr ''false'') (c # r0)"
    | (n) "c \<noteq> dquote" "\<not> prefix (ustr ''true'') (c # r0)" "\<not> prefix (ustr ''false'') (c # r0)"
        "prefix (ustr ''null'') (c # r0)"
    | (num) "c \<noteq> dquote" "\<not> prefix (ustr ''true'') (c # r0)" "\<not> prefix (ustr ''false'') (c # r0)"
        "\<not> prefix (ustr ''null'') (c # r0)"
    by blast
  then show ?thesis
  proof cases
    case str
    then obtain s where "parse_string_units r0 = Some (s, r)"
      using a sk c by auto
    then have "length r < length r0" by (rule parse_string_units_length)
    then show ?thesis using l0 by simp
  next
    case t
    then have "r = drop 4 (c # r0)" using a sk c by simp
    moreover have "4 \<le> length (c # r0)"
      using prefix_length_le [OF t(2)] by (simp add: ustr_def)
    ultimately have "length r < length (c # r0)" by simp
    then show ?thesis using l0 by simp
  next
    case f
    then have "r = drop 5 (c # r0)" using a sk c by simp
    moreover have "5 \<le> length (c # r0)"
      using prefix_length_le [OF f(3)] by (simp add: ustr_def)
    ultimately have "length r < length (c # r0)" by simp
    then show ?thesis using l0 by simp
  next
    case n
    then have "r = drop 4 (c # r0)" using a sk c by simp
    moreover have "4 \<le> length (c # r0)"
      using prefix_length_le [OF n(4)] by (simp add: ustr_def)
    ultimately have "length r < length (c # r0)" by simp
    then show ?thesis using l0 by simp
  next
    case num
    then have "parse_number (c # r0) = Some (v, r)" using a sk c by simp
    then have "length r < length (c # r0)" by (rule parse_number_length)
    then show ?thesis using l0 by simp
  qed
qed

lemma fuel_freeD:
  assumes "fuel_free p n" and "p n cs = Some (x, r)"
  shows "length r < length cs" and "\<And>m. length cs - length r \<le> m \<Longrightarrow> p m cs = Some (x, r)"
  using assms unfolding fuel_free_def by blast+

lemma fuel_free_value_step:
  assumes E: "fuel_free parse_elements n" and M: "fuel_free parse_members n"
  shows "fuel_free parse_value (Suc n)"
  unfolding fuel_free_def
proof (intro allI impI)
  fix cs v r
  assume a: "parse_value (Suc n) cs = Some (v, r)"
  obtain c r0 where sk: "skip_ws cs = c # r0" using a by (auto split: list.splits)
  have l0: "length r0 < length cs" by (rule skip_ws_Cons_length [OF sk])
  have tl0: "length (tl (skip_ws r0)) \<le> length r0"
    using skip_ws_length [of r0] by simp
  consider (obj0) "c = lbrace" "skip_ws r0 \<noteq> [] \<and> hd (skip_ws r0) = rbrace"
    | (obj) "c = lbrace" "\<not> (skip_ws r0 \<noteq> [] \<and> hd (skip_ws r0) = rbrace)"
    | (arr0) "c = lbracket" "skip_ws r0 \<noteq> [] \<and> hd (skip_ws r0) = rbracket"
    | (arr) "c = lbracket" "\<not> (skip_ws r0 \<noteq> [] \<and> hd (skip_ws r0) = rbracket)"
    | (flat) "c \<noteq> lbrace" "c \<noteq> lbracket"
    by blast
  then have "length r < length cs \<and> (\<forall>m'. length cs - length r \<le> Suc m' \<longrightarrow> parse_value (Suc m') cs = Some (v, r))"
  proof cases
    case obj0
    then have "r = tl (skip_ws r0)" "v = JObj []" using a sk by simp_all
    then show ?thesis using sk obj0 l0 tl0 by simp
  next
    case obj
    then obtain ms where pm: "parse_members n r0 = Some (ms, r)"
      and v: "v = JObj (object_of_members ms)"
      using a sk by auto
    have lr: "length r < length r0" by (rule fuel_freeD(1) [OF M pm])
    have "parse_value (Suc m') cs = Some (v, r)" if "length cs - length r \<le> Suc m'" for m'
    proof -
      have "length r0 - length r \<le> m'" using that l0 lr by simp
      then have "parse_members m' r0 = Some (ms, r)" by (rule fuel_freeD(2) [OF M pm])
      then show ?thesis using sk obj v by auto
    qed
    then show ?thesis using lr l0 by simp
  next
    case arr0
    then have "r = tl (skip_ws r0)" "v = JArr []" using a sk by simp_all
    then show ?thesis using sk arr0 l0 tl0 by simp
  next
    case arr
    then obtain vs where pe: "parse_elements n r0 = Some (vs, r)" and v: "v = JArr vs"
      using a sk by auto
    have lr: "length r < length r0" by (rule fuel_freeD(1) [OF E pe])
    have "parse_value (Suc m') cs = Some (v, r)" if "length cs - length r \<le> Suc m'" for m'
    proof -
      have "length r0 - length r \<le> m'" using that l0 lr by simp
      then have "parse_elements m' r0 = Some (vs, r)" by (rule fuel_freeD(2) [OF E pe])
      then show ?thesis using sk arr v by auto
    qed
    then show ?thesis using lr l0 by simp
  next
    case flat
    have "length r < length cs" by (rule parse_value_flat_length [OF a sk flat])
    moreover have "parse_value (Suc m') cs = Some (v, r)" for m'
      using parse_value_flat [OF sk flat, of m' n] a by simp
    ultimately show ?thesis by simp
  qed
  then have lr: "length r < length cs"
    and all: "\<And>m'. length cs - length r \<le> Suc m' \<Longrightarrow> parse_value (Suc m') cs = Some (v, r)"
    by simp_all
  show "length r < length cs \<and> (\<forall>m. length cs - length r \<le> m \<longrightarrow> parse_value m cs = Some (v, r))"
  proof (intro conjI allI impI)
    show "length r < length cs" by (rule lr)
  next
    fix m assume m: "length cs - length r \<le> m"
    then obtain m' where "m = Suc m'" using lr by (cases m) auto
    then show "parse_value m cs = Some (v, r)" using all m by simp
  qed
qed

lemma fuel_free_elements_step:
  assumes V: "fuel_free parse_value n" and E: "fuel_free parse_elements n"
  shows "fuel_free parse_elements (Suc n)"
  unfolding fuel_free_def
proof (intro allI impI)
  fix cs vs r
  assume a: "parse_elements (Suc n) cs = Some (vs, r)"
  obtain v r1 where pv: "parse_value n cs = Some (v, r1)"
    using a by (auto split: option.splits)
  obtain c r2 where sk: "skip_ws r1 = c # r2"
    using a pv by (auto split: list.splits)
  have l1: "length r1 < length cs" by (rule fuel_freeD(1) [OF V pv])
  have l2: "length r2 < length r1" by (rule skip_ws_Cons_length [OF sk])
  consider (more) "c = comma" | (last) "c \<noteq> comma" "c = rbracket"
    using a pv sk by (auto split: if_splits)
  then have "length r < length cs \<and> (\<forall>m'. length cs - length r \<le> Suc m' \<longrightarrow> parse_elements (Suc m') cs = Some (vs, r))"
  proof cases
    case more
    then obtain ws where pe: "parse_elements n r2 = Some (ws, r)" and vs: "vs = v # ws"
      using a pv sk by auto
    have l3: "length r < length r2" by (rule fuel_freeD(1) [OF E pe])
    have "parse_elements (Suc m') cs = Some (vs, r)" if "length cs - length r \<le> Suc m'" for m'
    proof -
      have "length cs - length r1 \<le> m'" "length r2 - length r \<le> m'"
        using that l1 l2 l3 by simp_all
      then have "parse_value m' cs = Some (v, r1)" "parse_elements m' r2 = Some (ws, r)"
        using fuel_freeD(2) [OF V pv] fuel_freeD(2) [OF E pe] by simp_all
      then show ?thesis using sk more vs by simp
    qed
    then show ?thesis using l1 l2 l3 by simp
  next
    case last
    then have r: "r = r2" "vs = [v]" using a pv sk by simp_all
    have "parse_elements (Suc m') cs = Some (vs, r)" if "length cs - length r \<le> Suc m'" for m'
    proof -
      have "length cs - length r1 \<le> m'" using that l1 l2 r by simp
      then have "parse_value m' cs = Some (v, r1)" using fuel_freeD(2) [OF V pv] by simp
      then show ?thesis using sk last r by simp
    qed
    then show ?thesis using l1 l2 r by simp
  qed
  then have lr: "length r < length cs"
    and all: "\<And>m'. length cs - length r \<le> Suc m' \<Longrightarrow> parse_elements (Suc m') cs = Some (vs, r)"
    by simp_all
  show "length r < length cs \<and> (\<forall>m. length cs - length r \<le> m \<longrightarrow> parse_elements m cs = Some (vs, r))"
  proof (intro conjI allI impI)
    show "length r < length cs" by (rule lr)
  next
    fix m assume m: "length cs - length r \<le> m"
    then obtain m' where "m = Suc m'" using lr by (cases m) auto
    then show "parse_elements m cs = Some (vs, r)" using all m by simp
  qed
qed

lemma fuel_free_members_step:
  assumes V: "fuel_free parse_value n" and M: "fuel_free parse_members n"
  shows "fuel_free parse_members (Suc n)"
  unfolding fuel_free_def
proof (intro allI impI)
  fix cs ms r
  assume a: "parse_members (Suc n) cs = Some (ms, r)"
  obtain q r0 where sk0: "skip_ws cs = q # r0" using a by (auto split: list.splits)
  have q: "q = dquote" using a sk0 by (auto split: if_splits)
  obtain k r1 where ps: "parse_string_units r0 = Some (k, r1)"
    using a sk0 q by (auto split: option.splits)
  obtain c r2 where sk1: "skip_ws r1 = c # r2"
    using a sk0 q ps by (auto split: list.splits)
  have c: "c = colon" using a sk0 q ps sk1 by (auto split: if_splits)
  obtain v r3 where pv: "parse_value n r2 = Some (v, r3)"
    using a sk0 q ps sk1 c by (auto split: option.splits)
  obtain d r4 where sk3: "skip_ws r3 = d # r4"
    using a sk0 q ps sk1 c pv by (auto split: list.splits)
  have l0: "length r0 < length cs" by (rule skip_ws_Cons_length [OF sk0])
  have l1: "length r1 < length r0" by (rule parse_string_units_length [OF ps])
  have l2: "length r2 < length r1" by (rule skip_ws_Cons_length [OF sk1])
  have l3: "length r3 < length r2" by (rule fuel_freeD(1) [OF V pv])
  have l4: "length r4 < length r3" by (rule skip_ws_Cons_length [OF sk3])
  consider (more) "d = comma" | (last) "d \<noteq> comma" "d = rbrace"
    using a sk0 q ps sk1 c pv sk3 by (auto split: if_splits)
  then have "length r < length cs \<and> (\<forall>m'. length cs - length r \<le> Suc m' \<longrightarrow> parse_members (Suc m') cs = Some (ms, r))"
  proof cases
    case more
    then obtain ws where pm: "parse_members n r4 = Some (ws, r)" and ms: "ms = (k, v) # ws"
      using a sk0 q ps sk1 c pv sk3 by auto
    have l5: "length r < length r4" by (rule fuel_freeD(1) [OF M pm])
    have "parse_members (Suc m') cs = Some (ms, r)" if "length cs - length r \<le> Suc m'" for m'
    proof -
      have "length r2 - length r3 \<le> m'" "length r4 - length r \<le> m'"
        using that l0 l1 l2 l3 l4 l5 by simp_all
      then have "parse_value m' r2 = Some (v, r3)" "parse_members m' r4 = Some (ws, r)"
        using fuel_freeD(2) [OF V pv] fuel_freeD(2) [OF M pm] by simp_all
      then show ?thesis using sk0 q ps sk1 c sk3 more ms by simp
    qed
    then show ?thesis using l0 l1 l2 l3 l4 l5 by simp
  next
    case last
    then have r: "r = r4" "ms = [(k, v)]" using a sk0 q ps sk1 c pv sk3 by simp_all
    have "parse_members (Suc m') cs = Some (ms, r)" if "length cs - length r \<le> Suc m'" for m'
    proof -
      have "length r2 - length r3 \<le> m'" using that l0 l1 l2 l3 l4 r by simp
      then have "parse_value m' r2 = Some (v, r3)" using fuel_freeD(2) [OF V pv] by simp
      then show ?thesis using sk0 q ps sk1 c sk3 last r by simp
    qed
    then show ?thesis using l0 l1 l2 l3 l4 r by simp
  qed
  then have lr: "length r < length cs"
    and all: "\<And>m'. length cs - length r \<le> Suc m' \<Longrightarrow> parse_members (Suc m') cs = Some (ms, r)"
    by simp_all
  show "length r < length cs \<and> (\<forall>m. length cs - length r \<le> m \<longrightarrow> parse_members m cs = Some (ms, r))"
  proof (intro conjI allI impI)
    show "length r < length cs" by (rule lr)
  next
    fix m assume m: "length cs - length r \<le> m"
    then obtain m' where "m = Suc m'" using lr by (cases m) auto
    then show "parse_members m cs = Some (ms, r)" using all m by simp
  qed
qed

lemma fuel_free_all:
  "fuel_free parse_value n \<and> fuel_free parse_elements n \<and> fuel_free parse_members n"
proof (induction n)
  case 0
  show ?case by (simp add: fuel_free_def)
next
  case (Suc n)
  then show ?case
    using fuel_free_value_step fuel_free_elements_step fuel_free_members_step by blast
qed

text \<open>A parse that succeeds with some fuel succeeds with the length of the text.\<close>

lemma parse_value_fuel:
  assumes "parse_value n text = Some (v, rest)"
  shows "parse_value (length text) text = Some (v, rest)"
proof -
  have "fuel_free parse_value n" using fuel_free_all by blast
  then have "parse_value m text = Some (v, rest)" if "length text - length rest \<le> m" for m
    using assms that by (rule fuel_freeD(2))
  then show ?thesis by simp
qed

lemma JSON_parse_None_iff:
  "JSON_parse text = None \<longleftrightarrow>
     (\<forall>n. case parse_value n text of None \<Rightarrow> True | Some (v, rest) \<Rightarrow> skip_ws rest \<noteq> [])"
proof
  assume a: "JSON_parse text = None"
  show "\<forall>n. case parse_value n text of None \<Rightarrow> True | Some (v, rest) \<Rightarrow> skip_ws rest \<noteq> []"
  proof
    fix n
    show "case parse_value n text of None \<Rightarrow> True | Some (v, rest) \<Rightarrow> skip_ws rest \<noteq> []"
    proof (cases "parse_value n text")
      case None
      then show ?thesis by simp
    next
      case (Some x)
      obtain v rest where x: "x = (v, rest)" by (cases x)
      have "parse_value (length text) text = Some (v, rest)"
        using parse_value_fuel Some x by simp
      then show ?thesis using a Some x by (auto simp: JSON_parse_def split: if_splits)
    qed
  qed
next
  assume "\<forall>n. case parse_value n text of None \<Rightarrow> True | Some (v, rest) \<Rightarrow> skip_ws rest \<noteq> []"
  then have "case parse_value (length text) text of None \<Rightarrow> True | Some (v, rest) \<Rightarrow> skip_ws rest \<noteq> []"
    by blast
  then show "JSON_parse text = None"
    by (auto simp: JSON_parse_def split: option.splits)
qed

section \<open>DashboardRenderer: charts\<close>

lemma enumerate_map_nth: "enumerate 0 xs = map (\<lambda>i. (i, xs ! i)) [0..<length xs]"
  by (rule nth_equalityI) (simp_all add: nth_enumerate_eq)

lemma transformChartData_arrays:
  assumes "js_member d (ustr ''labels'') = Some (JArr ls)"
    and "js_member d (ustr ''values'') = Some (JArr vs)"
  shows "transformChartData (Some d) =
           map (\<lambda>i. \<lparr>point_label = ls ! i,
                     point_value = (if i < length vs \<and> vs ! i \<noteq> JNull then vs ! i else JNum 0)\<rparr>)
             [0..<length ls]"
proof -
  obtain kvs where d: "d = JObj kvs" using assms(1) by (cases d) auto
  have n: "\<And>i. nullish_or (at_index vs i) (JNum 0)
             = (if i < length vs \<and> vs ! i \<noteq> JNull then vs ! i else JNum 0)"
    subgoal for i by (cases "vs ! i") (auto simp: at_index_def)
    done
  show ?thesis
    using assms d by (auto simp: transformChartData_def Let_def enumerate_map_nth n)
qed

lemma renderChart_skips:
  "chart \<noteq> JNull \<Longrightarrow>
   (renderChart chart = Inr None) = (transformChartData (js_member chart (ustr ''data'')) = [])"
  by (simp add: renderChart_def get_def Let_def)

text \<open>
  Claim C6, as amended. For every chart spec whose \<open>data\<close> has an array \<open>labels\<close> and an
  array \<open>values\<close>, the transformed point list has one point for each label, in order:
  the label at index \<open>i\<close> is paired with the value at index \<open>i\<close>, and with 0 where that
  value is missing or \<^verbatim>\<open>null\<close> (so three labels and two values give three points). The
  chart is skipped exactly when the transformed point list is empty.
\<close>

theorem chart_points:
  assumes "js_member chart (ustr ''data'') = Some d"
    and "js_member d (ustr ''labels'') = Some (JArr ls)"
    and "js_member d (ustr ''values'') = Some (JArr vs)"
  shows "transformChartData (Some d) =
           map (\<lambda>i. \<lparr>point_label = ls ! i,
                     point_value = (if i < length vs \<and> vs ! i \<noteq> JNull then vs ! i else JNum 0)\<rparr>)
             [0..<length ls]
         \<and> length (transformChartData (Some d)) = length ls
         \<and> ((renderChart chart = Inr None) = (transformChartData (Some d) = []))"
proof -
  have "chart \<noteq> JNull" using assms(1) by auto
  then show ?thesis
    using transformChartData_arrays [OF assms(2,3)] renderChart_skips [of chart] assms(1)
    by simp
qed

theorem chart_points_witness:
  "transformChartData (js_member chart_3_2 (ustr ''data'')) =
     [\<lparr>point_label = JStr (ustr ''a''), point_value = JNum 1\<rparr>,
      \<lparr>point_label = JStr (ustr ''b''), point_value = JNum 2\<rparr>,
      \<lparr>point_label = JStr (ustr ''c''), point_value = JNum 0\<rparr>]
   \<and> renderChart chart_3_2 \<noteq> Inr None"
  using chart_points [of chart_3_2 "JObj
     [(ustr ''labels'', JArr [JStr (ustr ''a''), JStr (ustr ''b''), JStr (ustr ''c'')]),
      (ustr ''values'', JArr [JNum 1, JNum 2])]"
     "[JStr (ustr ''a''), JStr (ustr ''b''), JStr (ustr ''c'')]" "[JNum 1, JNum 2]"]
  by (simp add: chart_3_2_def ustr_def upt_rec_numeral)

text \<open>
  Claim C6 as it is written speaks of every chart spec. A spec with one label and no
  \<open>values\<close> array has no point at all in the code, where the positional zip with the
  default 0 has one.
\<close>

theorem chart_points_counterexample:
  "transformChartData (Some (JObj [(ustr ''labels'', JArr [JStr (ustr ''a'')])])) = []
   \<and> spec_points (Some (JObj [(ustr ''labels'', JArr [JStr (ustr ''a'')])]))
       = [\<lparr>point_label = JStr (ustr ''a''), point_value = JNum 0\<rparr>]"
  by (simp add: transformChartData_def spec_points_def zip_default_zero_def ustr_def)

text \<open>
  Claim C10. For every chart spec in which \<open>data\<close> is absent, or \<open>data.labels\<close> is
  absent, not an array or empty, or \<open>data.values\<close> is absent or not an array, the
  transformed point list is empty and no chart card is rendered; so a spec with labels
  and no \<open>values\<close> array gives no chart, not a chart of zeros.
\<close>

theorem chart_without_arrays:
  assumes "chart \<noteq> JNull"
    and "js_member chart (ustr ''data'') = data"
    and "data = None
       \<or> \<not> isArray (Option.bind data (\<lambda>d. js_member d (ustr ''labels'')))
       \<or> elements (Option.bind data (\<lambda>d. js_member d (ustr ''labels''))) = []
       \<or> \<not> isArray (Option.bind data (\<lambda>d. js_member d (ustr ''values'')))"
  shows "transformChartData data = [] \<and> renderChart chart = Inr None"
proof -
  have "transformChartData data = []"
    using assms(3) by (auto simp: transformChartData_def Let_def)
  then show ?thesis using renderChart_skips [OF assms(1)] assms(2) by simp
qed

theorem chart_without_arrays_witness:
  "transformChartData (js_member chart_no_values (ustr ''data'')) = []
   \<and> renderChart chart_no_values = Inr None"
  using chart_without_arrays [of chart_no_values
      "Some (JObj [(ustr ''labels'', JArr [JStr (ustr ''a''), JStr (ustr ''b'')])])"]
  by (simp add: chart_no_values_def ustr_def)

section \<open>DashboardRenderer: alerts\<close>

lemma set_trim: "set (trim s) \<subseteq> set s"
proof -
  have "set (trim s) = set (dropWhile js_whitespace (rev (dropWhile js_whitespace s)))"
    by (simp add: trim_def)
  also have "\<dots> \<subseteq> set (rev (dropWhile js_whitespace s))"
    by (auto dest: set_dropWhileD)
  also have "\<dots> \<subseteq> set s"
    by (auto dest: set_dropWhileD)
  finally show ?thesis .
qed

text \<open>
  Claim C8. A string alert is destructive when it starts with the warning glyph (U+26A0
  U+FE0F, as the source writes it) and default otherwise; its displayed message is the
  alert without the code units of the warning glyph and of the success glyph, trimmed, so
  neither glyph is left in it. An object alert is destructive when its \<open>type\<close> is
  \<open>error\<close> or \<open>warning\<close> and default otherwise, in particular for \<open>info\<close> and for an
  absent \<open>type\<close>; its \<open>message\<close> is displayed as it is.
\<close>

theorem alert_variant_and_message:
  "getAlertVariant (JStr s) = Inr (if prefix warning_glyph s then Destructive else Default)
   \<and> getAlertMessage (JStr s) = Inr (Some (JStr (trim (filter (\<lambda>c. \<not> glyph_class c) s))))
   \<and> set (trim (filter (\<lambda>c. \<not> glyph_class c) s)) \<inter> (set warning_glyph \<union> set success_glyph) = {}
   \<and> getAlertVariant (JObj kvs) =
        Inr (if map_of kvs (ustr ''type'') = Some (JStr (ustr ''error''))
               \<or> map_of kvs (ustr ''type'') = Some (JStr (ustr ''warning''))
             then Destructive else Default)
   \<and> (map_of kvs (ustr ''type'') = Some (JStr (ustr ''info'')) \<or> map_of kvs (ustr ''type'') = None
        \<longrightarrow> getAlertVariant (JObj kvs) = Inr Default)
   \<and> getAlertMessage (JObj kvs) = Inr (map_of kvs (ustr ''message''))"
proof -
  have "set (trim (filter (\<lambda>c. \<not> glyph_class c) s)) \<subseteq> {c. \<not> glyph_class c}"
    using set_trim [of "filter (\<lambda>c. \<not> glyph_class c) s"] by auto
  then have "set (trim (filter (\<lambda>c. \<not> glyph_class c) s))
      \<inter> (set warning_glyph \<union> set success_glyph) = {}"
    by (auto simp: glyph_class_def)
  moreover have "ustr ''info'' \<noteq> ustr ''error''" "ustr ''info'' \<noteq> ustr ''warning''"
    by (simp_all add: ustr_def)
  ultimately show ?thesis by (simp add: get_def)
qed

theorem alert_variant_and_message_witness:
  "getAlertVariant (JStr alert_watch_spend) = Inr Destructive
   \<and> getAlertMessage (JStr alert_watch_spend) = Inr (Some (JStr (ustr ''watch spend'')))
   \<and> getAlertVariant (JObj [(ustr ''message'', JStr (ustr ''ok'')), (ustr ''type'', JStr (ustr ''info''))])
       = Inr Default
   \<and> getAlertMessage (JObj [(ustr ''message'', JStr (ustr ''ok'')), (ustr ''type'', JStr (ustr ''info''))])
       = Inr (Some (JStr (ustr ''ok'')))"
  using alert_variant_and_message [of alert_watch_spend
      "[(ustr ''message'', JStr (ustr ''ok'')), (ustr ''type'', JStr (ustr ''info''))]"]
  by (simp add: alert_watch_spend_def ustr_def warning_glyph_def success_glyph_def glyph_class_def
      trim_def js_whitespace_def)


section \<open>Dispatcher: normalisation\<close>


lemma assistantResponse_falsy:
  assumes "data \<noteq> JNull" and "\<not> truthy (js_member data (ustr ''response''))"
  shows "assistantResponse data = Inr data"
  using assms
  by (cases "js_member data (ustr ''response'')") (simp_all add: assistantResponse_def get_def)






text \<open>
  Claim C9. The legacy branch is chosen by the truthiness of \<open>response\<close>, not by its
  presence: for every body whose \<open>response\<close> field holds a falsy value, the normalised
  reply is the body itself, and the \<^verbatim>\<open>try\<close> of \<open>sendMessage\<close> persists its
  serialisation as the assistant message; no \<open>textView\<close> fallback is applied.
\<close>

theorem falsy_response_is_new_shape:
  assumes "js_member data (ustr ''response'') = Some response"
    and "\<not> truthy (Some response)"
    and "fetch env (VITE_AGENT_API_URL env) (VITE_AGENT_API_KEY env) (requestBody env text)
           = Inr \<lparr>ok = True, status = code, json_body = Inr data\<rparr>"
    and "saveMessage env (JSON_stringify data) Assistant = None"
  shows "assistantResponse data = Inr data
         \<and> try_catch_finally env text s
            = (s\<lparr>isLoading := False, saved := saved s @ [(JSON_stringify data, Assistant)]\<rparr>, None)"
proof -
  have "data \<noteq> JNull" using assms(1) by auto
  then have "assistantResponse data = Inr data"
    using assms(1,2) by (simp add: assistantResponse_falsy)
  then show ?thesis
    using assms(3,4) by (simp add: try_catch_finally_def try_block_def finally_block_def)
qed

theorem falsy_response_is_new_shape_witness:
  "assistantResponse (JObj [(ustr ''response'', JStr [])]) = Inr (JObj [(ustr ''response'', JStr [])])
   \<and> saved (fst (sendMessage (env_with (replies (JObj [(ustr ''response'', JStr [])]))) s_hello))
       = [(ustr ''hello'', User), (ustr ''{\"response\":\"\"}'', Assistant)]"
proof -
  let ?data = "JObj [(ustr ''response'', JStr [])]"
  let ?env = "env_with (replies ?data)"
  let ?s = "s_hello\<lparr>inputMessage := [], isLoading := True, error := None,
              saved := [(ustr ''hello'', User)], titles := [(ustr ''s1'', ustr ''hello'')]\<rparr>"
  have str: "JSON_stringify ?data = ustr ''{\"response\":\"\"}''"
    by code_simp
  have send: "sendMessage ?env s_hello = try_catch_finally ?env (ustr ''hello'') ?s"
    by (simp add: sendMessage_def send_in_session_def s_hello_def env_with_def ustr_def
        trim_def js_whitespace_def isFirstMessage_def Let_def)
  have "assistantResponse ?data = Inr ?data
      \<and> try_catch_finally ?env (ustr ''hello'') ?s
          = (?s\<lparr>isLoading := False, saved := saved ?s @ [(JSON_stringify ?data, Assistant)]\<rparr>, None)"
    by (rule falsy_response_is_new_shape [of ?data "JStr []" ?env "ustr ''hello''" 200 ?s])
      (simp_all add: env_with_def replies_def)
  then show ?thesis
    unfolding send by (simp add: str s_hello_def del: JSON_stringify.simps)
qed


section \<open>Dispatcher: sendMessage\<close>



















section \<open>Renderer\<close>

lemma parsedContent_eq:
  "parsedContent content =
     (case JSON_parse content of
        Some v \<Rightarrow> Inr v
      | None \<Rightarrow> Inl (Error (ustr ''Not valid JSON'')))"
  by (simp add: parsedContent_def split: option.split)

lemma classifyContent_no_object:
  assumes "v \<noteq> JNull" and "\<forall>kvs. v \<noteq> JObj kvs"
  shows "classifyContent content v = Inr (JStr content, Some JNull)"
  using assms by (cases v) (simp_all add: classifyContent_def withoutTextView_def get_def)


lemma classifyContent_textView:
  assumes "js_member parsed (ustr ''textView'') = Some textView" and "truthy (Some textView)"
  shows "classifyContent content parsed
         = Inr (textView, js_member parsed (ustr ''dashboardView''))"
proof -
  have "parsed \<noteq> JNull" using assms(1) by auto
  then show ?thesis using assms by (simp add: classifyContent_def get_def)
qed






text \<open>
  Claim C4. The second parse of \<open>renderMessageContent\<close> runs only after the first parse
  of the same string has failed, and then its inner parse fails again: it never yields a
  value (\<open>parsedContent_eq\<close>). For a doubly encoded object the first parse succeeds with
  a string, the classification takes the third case, and the element is the markdown of
  the raw, doubly encoded content for either view mode: the inner object is not
  recovered.
\<close>

theorem double_encoded_not_recovered:
  "parsedContent (JSON_stringify (JStr (JSON_stringify inner))) = Inr (JStr (JSON_stringify inner))
   \<and> renderMessageContent modes (msg_of (JSON_stringify (JStr (JSON_stringify inner))))
      = Inr (ProseMarkdown (JStr (JSON_stringify (JStr (JSON_stringify inner)))))"
proof -
  let ?c = "JSON_stringify (JStr (JSON_stringify inner))"
  have p: "JSON_parse ?c = Some (JStr (JSON_stringify inner))"
    by (rule JSON_parse_stringify) simp
  have "classifyContent ?c (JStr (JSON_stringify inner)) = Inr (JStr ?c, Some JNull)"
    by (rule classifyContent_no_object) simp_all
  then show ?thesis
    using p by (simp add: renderMessageContent_def render_try_def parsedContent_eq msg_of_def
        del: JSON_stringify.simps)
qed

text \<open>
  The doubly encoded \<^verbatim>\<open>{"textView":"hi","dashboardView":{}}\<close>: the text shown is the
  stored string with its quotes and backslashes, where the claim expects \<open>hi\<close>.
\<close>

lemma double_encoded_hi:
  "JSON_stringify (JStr (JSON_stringify reply_hi))
     = dquote # ustr ''{'' @ backslash # dquote # ustr ''textView'' @ backslash # dquote # ustr '':''
       @ backslash # dquote # ustr ''hi'' @ backslash # dquote # ustr '','' @ backslash # dquote
       # ustr ''dashboardView'' @ backslash # dquote # ustr '':{}}'' @ [dquote]"
  "renderMessageContent modes (msg_of (JSON_stringify (JStr (JSON_stringify reply_hi))))
     = Inr (ProseMarkdown (JStr (JSON_stringify (JStr (JSON_stringify reply_hi)))))"
  "renderMessageContent modes (msg_of (JSON_stringify reply_hi))
     = Inr (if modes (ustr ''m1'') = Some DashboardMode then DashboardRenderer (JObj [])
            else ProseMarkdown (JStr (ustr ''hi'')))"
proof -
  show "JSON_stringify (JStr (JSON_stringify reply_hi))
     = dquote # ustr ''{'' @ backslash # dquote # ustr ''textView'' @ backslash # dquote # ustr '':''
       @ backslash # dquote # ustr ''hi'' @ backslash # dquote # ustr '','' @ backslash # dquote
       # ustr ''dashboardView'' @ backslash # dquote # ustr '':{}}'' @ [dquote]"
    by code_simp
  show "renderMessageContent modes (msg_of (JSON_stringify (JStr (JSON_stringify reply_hi))))
     = Inr (ProseMarkdown (JStr (JSON_stringify (JStr (JSON_stringify reply_hi)))))"
  proof -
    let ?c = "JSON_stringify (JStr (JSON_stringify reply_hi))"
    have p: "JSON_parse ?c = Some (JStr (JSON_stringify reply_hi))"
      by (rule JSON_parse_stringify) simp
    have "classifyContent ?c (JStr (JSON_stringify reply_hi)) = Inr (JStr ?c, Some JNull)"
      by (rule classifyContent_no_object) simp_all
    then show ?thesis
      using p by (simp add: renderMessageContent_def render_try_def parsedContent_eq msg_of_def
          del: JSON_stringify.simps)
  qed
  have wf: "wf_json reply_hi" by (simp add: reply_hi_def ustr_def)
  have c: "classifyContent (JSON_stringify reply_hi) reply_hi
      = Inr (JStr (ustr ''hi''), Some (JObj []))"
    using classifyContent_textView [of reply_hi "JStr (ustr ''hi'')" "JSON_stringify reply_hi"]
    by (simp add: reply_hi_def ustr_def del: JSON_stringify.simps)
  show "renderMessageContent modes (msg_of (JSON_stringify reply_hi))
     = Inr (if modes (ustr ''m1'') = Some DashboardMode then DashboardRenderer (JObj [])
            else ProseMarkdown (JStr (ustr ''hi'')))"
    using JSON_parse_stringify [OF wf] c
    by (auto simp: renderMessageContent_def render_try_def parsedContent_eq msg_of_def
        simp del: JSON_stringify.simps split: option.splits view_mode.splits)
qed

end
